theory Spec2Isabelle
  imports Complex_Main "HOL-Library.Word"
begin

unbundle bit_operations_syntax

section \<open>The circular queue of \<open>circularqueue.h\<close>\<close>

text \<open>
  The class \<open>CircularQueue<T>\<close> is a ring buffer over a \<open>std::vector<T>\<close> with two
  cursors. The model is sequential: every \<open>std::atomic<size_t>\<close> load and store is a
  plain read and write of the field, whatever its memory order.

  \<^item> \<open>size_t\<close> is a 64-bit unsigned integer (\<open>64 word\<close>): \<open>+\<close>, \<open>-\<close> and the left
    shift wrap around, as unsigned arithmetic does in C++.
  \<^item> \<open>std::vector<T>\<close> is a list. \<open>operator[]\<close> does no bounds check; an index at or
    beyond the length is undefined behaviour and is the error \<open>OutOfBounds\<close> here.
  \<^item> \<open>std::vector<T>(n)\<close> and \<open>resize(n)\<close> throw \<open>std::length_error\<close> when \<open>n\<close> is
    above \<open>max_size()\<close>; that is the error \<open>LengthError\<close>. The value of \<open>max_size()\<close>
    belongs to the library and the element type, so it is the parameter \<open>max_size\<close> of
    the constructor. On a 64-bit platform it is at most \<open>2^63 - 1\<close>.
  \<^item> The element that \<open>std::vector<T>(n)\<close> and \<open>resize\<close> value-initialise slots with
    is the parameter \<open>dflt\<close> of the constructor.
  \<^item> Within \<open>max_size()\<close> an allocation succeeds: how much memory the machine has
    (\<open>std::bad_alloc\<close>) is not modelled.
  \<^item> A finite \<open>double\<close> is the rational number it stands for. What \<open>double\<close>
    arithmetic rounds is given by two parameters of \<open>getUsageRatio\<close>.
\<close>

type_synonym size_t = "64 word"

datatype error = OutOfBounds | LengthError

record 'a CircularQueue =
  m_capacity :: size_t
  m_mask :: size_t
  m_buffer :: "'a list"
  m_writeIndex :: size_t
  m_readIndex :: size_t

subsection \<open>Construction\<close>

text \<open>
  \<^verbatim>\<open>size_t powerOf2 = 1; while (powerOf2 < capacity) { powerOf2 <<= 1; }\<close>

  The loop has no bound of its own, so it is a partial function: \<open>None\<close> is the loop
  that never ends. The shift is on an unsigned type, so the bit shifted out of the top
  is lost and \<open>powerOf2\<close> becomes 0 after 64 doublings.
\<close>

partial_function (option) pow2_loop :: "size_t \<Rightarrow> size_t \<Rightarrow> size_t option" where
  "pow2_loop powerOf2 capacity =
     (if powerOf2 < capacity then pow2_loop (push_bit 1 powerOf2) capacity
      else Some powerOf2)"

text \<open>\<open>std::vector<T>(n)\<close>: \<open>n\<close> value-initialised elements, or \<open>std::length_error\<close>.\<close>

definition vector_n :: "nat \<Rightarrow> nat \<Rightarrow> 'a \<Rightarrow> error + 'a list" where
  "vector_n max_size n dflt =
     (if max_size < n then Inl LengthError else Inr (replicate n dflt))"

text \<open>
  \<open>std::vector::resize(n)\<close>: cut to \<open>n\<close> elements, or fill up with new ones, or
  \<open>std::length_error\<close>.
\<close>

definition resize :: "nat \<Rightarrow> nat \<Rightarrow> 'a \<Rightarrow> 'a list \<Rightarrow> error + 'a list" where
  "resize max_size n dflt xs =
     (if max_size < n then Inl LengthError
      else Inr (take n xs @ replicate (n - length xs) dflt))"

text \<open>
  The constructor has three outcomes: it returns a queue (\<open>Some (Inr q)\<close>), it throws
  (\<open>Some (Inl LengthError)\<close>), or its loop never ends (\<open>None\<close>). The members are
  initialised in the order of their declaration, so \<open>m_buffer(capacity)\<close> runs, and may
  throw, before the body.
\<close>

definition CircularQueue_ctor ::
    "nat \<Rightarrow> 'a \<Rightarrow> size_t \<Rightarrow> (error + 'a CircularQueue) option" where
  "CircularQueue_ctor max_size dflt capacity =
     (case vector_n max_size (unat capacity) dflt of
        Inl e \<Rightarrow> Some (Inl e)
      | Inr buffer \<Rightarrow>
          (let q = \<lparr> m_capacity = capacity,
                      m_mask = capacity - 1,
                      m_buffer = buffer,
                      m_writeIndex = 0,
                      m_readIndex = 0 \<rparr>
           in if capacity AND (capacity - 1) \<noteq> 0
              then (case pow2_loop 1 capacity of
                      None \<Rightarrow> None
                    | Some powerOf2 \<Rightarrow>
                        (case resize max_size (unat powerOf2) dflt (m_buffer q) of
                           Inl e \<Rightarrow> Some (Inl e)
                         | Inr buffer' \<Rightarrow>
                             Some (Inr (q\<lparr> m_capacity := powerOf2,
                                           m_mask := powerOf2 - 1,
                                           m_buffer := buffer' \<rparr>))))
              else Some (Inr q)))"

subsection \<open>Operations\<close>

text \<open>\<open>enqueue\<close> returns the \<open>bool\<close> of the source and the queue after the call.\<close>

definition enqueue :: "'a \<Rightarrow> 'a CircularQueue \<Rightarrow> error + (bool \<times> 'a CircularQueue)" where
  "enqueue item q =
     (let currentWrite = m_writeIndex q;
          nextWrite = (currentWrite + 1) AND m_mask q
      in if nextWrite = m_readIndex q then Inr (False, q)
         else if unat currentWrite < length (m_buffer q)
         then Inr (True, q\<lparr> m_buffer := (m_buffer q)[unat currentWrite := item],
                             m_writeIndex := nextWrite \<rparr>)
         else Inl OutOfBounds)"

definition forceEnqueue :: "'a \<Rightarrow> 'a CircularQueue \<Rightarrow> error + 'a CircularQueue" where
  "forceEnqueue item q =
     (let currentWrite = m_writeIndex q;
          nextWrite = (currentWrite + 1) AND m_mask q;
          q1 = (if nextWrite = m_readIndex q
                then q\<lparr> m_readIndex := (m_readIndex q + 1) AND m_mask q \<rparr>
                else q)
      in if unat currentWrite < length (m_buffer q1)
         then Inr (q1\<lparr> m_buffer := (m_buffer q1)[unat currentWrite := item],
                       m_writeIndex := nextWrite \<rparr>)
         else Inl OutOfBounds)"

text \<open>
  \<open>dequeue\<close> takes the caller's variable \<open>item\<close> as it is before the call and returns
  the \<open>bool\<close> of the source, the variable after the call and the queue after the call.
\<close>

definition dequeue :: "'a \<Rightarrow> 'a CircularQueue \<Rightarrow> error + (bool \<times> 'a \<times> 'a CircularQueue)" where
  "dequeue item q =
     (let currentRead = m_readIndex q
      in if currentRead = m_writeIndex q then Inr (False, item, q)
         else if unat currentRead < length (m_buffer q)
         then Inr (True, m_buffer q ! unat currentRead,
                   q\<lparr> m_readIndex := (currentRead + 1) AND m_mask q \<rparr>)
         else Inl OutOfBounds)"

definition isEmpty :: "'a CircularQueue \<Rightarrow> bool" where
  "isEmpty q \<longleftrightarrow> m_readIndex q = m_writeIndex q"

definition isFull :: "'a CircularQueue \<Rightarrow> bool" where
  "isFull q \<longleftrightarrow> (let nextWrite = (m_writeIndex q + 1) AND m_mask q
                in nextWrite = m_readIndex q)"

definition size_cq :: "'a CircularQueue \<Rightarrow> size_t" where
  "size_cq q = (let write = m_writeIndex q; read = m_readIndex q
                in (write - read) AND m_mask q)"

definition capacity :: "'a CircularQueue \<Rightarrow> size_t" where
  "capacity q = m_capacity q"

definition clear :: "'a CircularQueue \<Rightarrow> 'a CircularQueue" where
  "clear q = q\<lparr> m_readIndex := m_writeIndex q \<rparr>"

subsection \<open>The usage ratio\<close>

text \<open>
  \<^verbatim>\<open>return static_cast<double>(size()) / static_cast<double>(m_capacity);\<close>

  A \<open>double\<close> is a finite value, an infinity or a NaN. Both operands of the division
  are conversions of a \<open>size_t\<close>, hence finite and not negative, so the division is
  defined on two rationals: a zero divisor gives NaN for \<open>0.0 / 0.0\<close> and infinity
  otherwise, and any other quotient is rounded to a \<open>double\<close>.

  The conversion \<open>static_cast<double>\<close> of a \<open>size_t\<close> and the rounding of a quotient
  are the parameters \<open>to_double\<close> and \<open>rnd\<close>: which neighbour the conversion picks for
  a value that has no \<open>double\<close> is left to the implementation. With the 53-bit
  significand of IEEE 754 binary64, the conversion is exact up to \<open>2^53\<close> and so is the
  rounding of \<open>m / 2^k\<close> for \<open>m \<le> 2^53\<close> and \<open>k \<le> 53\<close>; the theorem about the ratio
  assumes no more than that of the two parameters.
\<close>

datatype double = Finite rat | Infinity | NaN

definition double_div :: "(rat \<Rightarrow> rat) \<Rightarrow> rat \<Rightarrow> rat \<Rightarrow> double" where
  "double_div rnd a b =
     (if b = 0 then (if a = 0 then NaN else Infinity) else Finite (rnd (a / b)))"

definition getUsageRatio :: "(nat \<Rightarrow> rat) \<Rightarrow> (rat \<Rightarrow> rat) \<Rightarrow> 'a CircularQueue \<Rightarrow> double" where
  "getUsageRatio to_double rnd q =
     double_div rnd (to_double (unat (size_cq q))) (to_double (unat (m_capacity q)))"

subsection \<open>Sequences of calls\<close>

text \<open>
  A caller's call, and what it gets back. \<open>Dequeue x\<close> is a call of \<open>dequeue\<close> on a
  variable that holds \<open>x\<close>; \<open>DeqRet b y\<close> is the \<open>bool\<close> returned and the variable
  afterwards. A run stops at the first undefined behaviour.
\<close>

datatype 'a call = Enqueue 'a | ForceEnqueue 'a | Dequeue 'a | Clear

datatype 'a ret = EnqRet bool | ForceRet | DeqRet bool 'a | ClearRet

fun step :: "'a call \<Rightarrow> 'a CircularQueue \<Rightarrow> error + ('a ret \<times> 'a CircularQueue)" where
  "step (Enqueue v) q =
     (case enqueue v q of Inl e \<Rightarrow> Inl e | Inr (b, q') \<Rightarrow> Inr (EnqRet b, q'))"
| "step (ForceEnqueue v) q =
     (case forceEnqueue v q of Inl e \<Rightarrow> Inl e | Inr q' \<Rightarrow> Inr (ForceRet, q'))"
| "step (Dequeue x) q =
     (case dequeue x q of Inl e \<Rightarrow> Inl e | Inr (b, y, q') \<Rightarrow> Inr (DeqRet b y, q'))"
| "step Clear q = Inr (ClearRet, clear q)"

fun run :: "'a call list \<Rightarrow> 'a CircularQueue \<Rightarrow> error + ('a ret list \<times> 'a CircularQueue)" where
  "run [] q = Inr ([], q)"
| "run (c # cs) q =
     (case step c q of
        Inl e \<Rightarrow> Inl e
      | Inr (r, q') \<Rightarrow>
          (case run cs q' of Inl e \<Rightarrow> Inl e | Inr (rs, q'') \<Rightarrow> Inr (r # rs, q'')))"

text \<open>The values that a sequence of calls hands to the queue.\<close>

fun inserted :: "'a call list \<Rightarrow> 'a list" where
  "inserted [] = []"
| "inserted (Enqueue v # cs) = v # inserted cs"
| "inserted (ForceEnqueue v # cs) = v # inserted cs"
| "inserted (c # cs) = inserted cs"

subsection \<open>The invariant of a constructed queue and the elements it holds\<close>

text \<open>
  \<open>valid\<close> is the invariant of a queue built from a non-zero request: the capacity is a
  power of two that fits \<open>size_t\<close>, the mask is the capacity minus one, the storage
  has one slot per unit of capacity and both cursors are inside it.
\<close>

definition valid :: "'a CircularQueue \<Rightarrow> bool" where
  "valid q \<longleftrightarrow>
     (\<exists>k<64. m_capacity q = 2 ^ k) \<and>
     m_mask q = m_capacity q - 1 \<and>
     length (m_buffer q) = unat (m_capacity q) \<and>
     m_writeIndex q < m_capacity q \<and>
     m_readIndex q < m_capacity q"

text \<open>
  The elements waiting in the queue, oldest first: the slots from the read cursor up to,
  but not including, the write cursor, going round the ring.
\<close>

definition pending :: "'a CircularQueue \<Rightarrow> 'a list" where
  "pending q =
     map (\<lambda>i. m_buffer q ! ((unat (m_readIndex q) + i) mod unat (m_capacity q)))
       [0..<unat (size_cq q)]"

text \<open>The cursor arithmetic on natural numbers, for a ring of \<open>n\<close> slots.\<close>

definition ring_dist :: "nat \<Rightarrow> nat \<Rightarrow> nat \<Rightarrow> nat" where
  "ring_dist n r w = (if r \<le> w then w - r else w + n - r)"

definition ring_next :: "nat \<Rightarrow> nat \<Rightarrow> nat" where
  "ring_next n w = (if w + 1 < n then w + 1 else 0)"

text \<open>The queue that a request of capacity 0 leaves behind.\<close>

definition degenerate :: "'a CircularQueue" where
  "degenerate = \<lparr> m_capacity = 0, m_mask = - 1, m_buffer = [], m_writeIndex = 0, m_readIndex = 0 \<rparr>"

section \<open>Machine words as natural numbers\<close>

text \<open>
  With a mask \<open>2^k - 1\<close>, the two cursor computations of the source, \<open>(x + 1) & mask\<close>
  and \<open>(w - r) & mask\<close>, are read as natural numbers.
\<close>

lemma unat_pow2:
  assumes k: "k < 64" shows "unat (2 ^ k :: size_t) = 2 ^ k"
proof -
  have "(2::nat) ^ k < 2 ^ 64" using k by (rule power_strict_increasing) simp
  then show ?thesis
    using unat_of_nat [where 'a = 64, of "2 ^ k"] by simp
qed

lemma and_pow2_minus_1: "x AND (2 ^ k - 1) = take_bit k (x :: size_t)"
  by (simp add: take_bit_eq_mask mask_eq_exp_minus_1)

lemma unat_take_bit: "unat (take_bit k (x :: size_t)) = unat x mod 2 ^ k"
  by (metis take_bit_eq_mod unsigned_take_bit_eq)

lemma unat_and_mask: "unat (x AND (2 ^ k - 1 :: size_t)) = unat x mod 2 ^ k"
  by (simp only: and_pow2_minus_1 unat_take_bit)

lemma pow2_split:
  assumes "k < 64" obtains m :: nat where "2 ^ 64 = 2 ^ k * m" "0 < m"
proof -
  have "(2::nat) ^ 64 = 2 ^ k * 2 ^ (64 - k)"
    using assms by (simp only: flip: power_add) simp
  then show thesis using that [of "2 ^ (64 - k)"] by simp
qed

lemma unat_next:
  assumes k: "k < 64" and w: "unat w < 2 ^ k"
  shows "unat ((w + 1) AND (2 ^ k - 1 :: size_t)) = (if unat w + 1 < 2 ^ k then unat w + 1 else 0)"
proof -
  have "(2::nat) ^ k < 2 ^ 64" using k by (rule power_strict_increasing) simp
  with w have "unat w + 1 < 2 ^ 64" by simp
  then have "unat (w + 1) = unat w + 1"
    by (simp add: unat_word_ariths)
  then have *: "unat ((w + 1) AND (2 ^ k - 1 :: size_t)) = (unat w + 1) mod 2 ^ k"
    by (simp only: unat_and_mask)
  show ?thesis
  proof (cases "unat w + 1 < 2 ^ k")
    case True
    then show ?thesis by (simp only: * mod_less if_True)
  next
    case False
    with w have "unat w + 1 = 2 ^ k" by simp
    with False show ?thesis by (simp only: * mod_self if_False)
  qed
qed

lemma unat_dist:
  assumes k: "k < 64" and w: "unat w < 2 ^ k" and r: "unat r < 2 ^ k"
  shows "unat ((w - r) AND (2 ^ k - 1 :: size_t)) =
           (if unat r \<le> unat w then unat w - unat r else unat w + 2 ^ k - unat r)"
proof (cases "unat r \<le> unat w")
  case True
  then have "unat (w - r) = unat w - unat r" by (simp add: unat_sub_if')
  moreover have "unat w - unat r < 2 ^ k" using w by simp
  ultimately show ?thesis using True by (simp only: unat_and_mask mod_less if_True)
next
  case False
  obtain m :: nat where m: "2 ^ 64 = 2 ^ k * m" "0 < m" using pow2_split [OF k] .
  from False have "unat (w - r) = unat w + 2 ^ 64 - unat r" by (simp add: unat_sub_if')
  also have "\<dots> = (unat w + 2 ^ k - unat r) + 2 ^ k * (m - 1)"
  proof -
    from m obtain m' where m': "m = Suc m'" by (cases m) auto
    define a :: nat where "a = 2 ^ k"
    define b :: nat where "b = a * m'"
    have "unat w + (a + b) - unat r = (unat w + a - unat r) + b"
      using r unfolding a_def by arith
    then show ?thesis
      unfolding m(1) m' b_def a_def by simp
  qed
  finally have "unat (w - r) mod 2 ^ k = (unat w + 2 ^ k - unat r) mod 2 ^ k"
    by (simp only: mod_mult_self2)
  moreover have "unat w + 2 ^ k - unat r < 2 ^ k" using False r by arith
  ultimately show ?thesis using False by (simp only: unat_and_mask mod_less if_False)
qed

section \<open>The invariant in natural numbers\<close>

text \<open>
  What \<open>valid\<close> gives about \<open>size()\<close>, \<open>isFull()\<close> and \<open>isEmpty()\<close>, in terms of the
  cursors as natural numbers.
\<close>

lemma mod_wrap: "a < 2 * n \<Longrightarrow> a mod n = (if a < n then a else a - (n::nat))"
  by (auto simp add: not_less le_mod_geq)

lemma validE:
  assumes "valid q"
  obtains k where "k < 64" "m_capacity q = 2 ^ k" "m_mask q = 2 ^ k - 1"
    "unat (m_capacity q) = 2 ^ k" "length (m_buffer q) = 2 ^ k"
    "unat (m_writeIndex q) < 2 ^ k" "unat (m_readIndex q) < 2 ^ k"
proof -
  from assms obtain k where k: "k < 64" "m_capacity q = 2 ^ k"
    unfolding valid_def by blast
  have u: "unat (m_capacity q) = 2 ^ k" using k by (simp only: unat_pow2)
  moreover have "m_mask q = 2 ^ k - 1" using assms k unfolding valid_def by simp
  moreover have "length (m_buffer q) = 2 ^ k" using assms u unfolding valid_def by simp
  moreover have "unat (m_writeIndex q) < 2 ^ k" "unat (m_readIndex q) < 2 ^ k"
    using assms u unfolding valid_def by (simp_all only: word_less_nat_alt)
  ultimately show thesis using that k by blast
qed

lemma valid_size:
  assumes "valid q"
  shows "unat (size_cq q) =
    (if unat (m_readIndex q) \<le> unat (m_writeIndex q)
     then unat (m_writeIndex q) - unat (m_readIndex q)
     else unat (m_writeIndex q) + unat (m_capacity q) - unat (m_readIndex q))"
proof -
  from assms obtain k where k: "k < 64" "m_mask q = 2 ^ k - 1"
    "unat (m_capacity q) = 2 ^ k"
    "unat (m_writeIndex q) < 2 ^ k" "unat (m_readIndex q) < 2 ^ k"
    by (rule validE)
  show ?thesis
    unfolding size_cq_def Let_def k(2,3) by (rule unat_dist [OF k(1,4,5)])
qed

lemma valid_next:
  assumes "valid q"
  shows "unat ((m_writeIndex q + 1) AND m_mask q) =
    (if unat (m_writeIndex q) + 1 < unat (m_capacity q) then unat (m_writeIndex q) + 1 else 0)"
    and "unat ((m_readIndex q + 1) AND m_mask q) =
    (if unat (m_readIndex q) + 1 < unat (m_capacity q) then unat (m_readIndex q) + 1 else 0)"
proof -
  from assms obtain k where k: "k < 64" "m_mask q = 2 ^ k - 1"
    "unat (m_capacity q) = 2 ^ k"
    "unat (m_writeIndex q) < 2 ^ k" "unat (m_readIndex q) < 2 ^ k"
    by (rule validE)
  show "unat ((m_writeIndex q + 1) AND m_mask q) =
    (if unat (m_writeIndex q) + 1 < unat (m_capacity q) then unat (m_writeIndex q) + 1 else 0)"
    unfolding k(2,3) by (rule unat_next [OF k(1,4)])
  show "unat ((m_readIndex q + 1) AND m_mask q) =
    (if unat (m_readIndex q) + 1 < unat (m_capacity q) then unat (m_readIndex q) + 1 else 0)"
    unfolding k(2,3) by (rule unat_next [OF k(1,5)])
qed

lemma valid_bounds:
  assumes "valid q"
  shows "unat (m_writeIndex q) < unat (m_capacity q)"
    "unat (m_readIndex q) < unat (m_capacity q)"
    "length (m_buffer q) = unat (m_capacity q)"
  using assms unfolding valid_def by (simp_all add: word_less_nat_alt)

lemma isFull_nat:
  assumes "valid q"
  shows "isFull q \<longleftrightarrow>
    (if unat (m_writeIndex q) + 1 < unat (m_capacity q) then unat (m_writeIndex q) + 1 else 0)
      = unat (m_readIndex q)"
  unfolding isFull_def Let_def word_unat_eq_iff valid_next(1) [OF assms] ..

lemma isEmpty_nat: "isEmpty q \<longleftrightarrow> unat (m_readIndex q) = unat (m_writeIndex q)"
  unfolding isEmpty_def word_unat_eq_iff ..

lemma isFull_iff_size:
  assumes "valid q"
  shows "isFull q \<longleftrightarrow> unat (size_cq q) = unat (m_capacity q) - 1"
  using valid_bounds(1,2) [OF assms]
  unfolding isFull_nat [OF assms] valid_size [OF assms]
  by (auto split: if_splits)

lemma size_le:
  assumes "valid q"
  shows "unat (size_cq q) \<le> unat (m_capacity q) - 1"
  using valid_bounds(1,2) [OF assms]
  unfolding valid_size [OF assms]
  by (auto split: if_splits)

lemma isEmpty_iff_size:
  assumes "valid q"
  shows "isEmpty q \<longleftrightarrow> unat (size_cq q) = 0"
  using valid_bounds(1,2) [OF assms]
  unfolding isEmpty_nat valid_size [OF assms]
  by (auto split: if_splits)

section \<open>Slots of the ring\<close>

text \<open>
  Advancing a cursor keeps the invariant. The slots between the read and the write
  cursor are pairwise different from the slot at the write cursor, which is why a write
  there does not disturb a pending element.
\<close>

lemma valid_upd_write:
  assumes v: "valid q" and w: "w' = (m_writeIndex q + 1) AND m_mask q"
  shows "valid (q\<lparr> m_buffer := (m_buffer q)[i := x], m_writeIndex := w' \<rparr>)"
proof -
  from v obtain k where k: "k < 64" "m_mask q = 2 ^ k - 1"
    "unat (m_capacity q) = 2 ^ k"
    "unat (m_writeIndex q) < 2 ^ k" "unat (m_readIndex q) < 2 ^ k"
    by (rule validE)
  have "unat w' < unat (m_capacity q)"
    unfolding w valid_next(1) [OF v] using k(3) by simp
  then have "w' < m_capacity q" by (simp only: word_less_nat_alt)
  with v show ?thesis unfolding valid_def by simp
qed

lemma valid_upd_read:
  assumes v: "valid q" and r: "r' = (m_readIndex q + 1) AND m_mask q"
  shows "valid (q\<lparr> m_readIndex := r' \<rparr>)"
proof -
  from v obtain k where k: "k < 64" "m_mask q = 2 ^ k - 1"
    "unat (m_capacity q) = 2 ^ k"
    "unat (m_writeIndex q) < 2 ^ k" "unat (m_readIndex q) < 2 ^ k"
    by (rule validE)
  have "unat r' < unat (m_capacity q)"
    unfolding r valid_next(2) [OF v] using k(3) by simp
  then have "r' < m_capacity q" by (simp only: word_less_nat_alt)
  with v show ?thesis unfolding valid_def by simp
qed

lemma ring_slot_neq:
  assumes "r < n" "w < n" "i < ring_dist n r w"
  shows "(r + i) mod n \<noteq> w"
proof -
  have "r + i < 2 * n" using assms by (auto simp: ring_dist_def split: if_splits)
  then show ?thesis
    using assms by (auto simp: mod_wrap ring_dist_def split: if_splits)
qed

lemma ring_slot_last:
  assumes "r < n" "w < n"
  shows "(r + ring_dist n r w) mod n = w"
proof -
  have "r + ring_dist n r w < 2 * n" using assms by (auto simp: ring_dist_def split: if_splits)
  then show ?thesis
    using assms by (auto simp: mod_wrap ring_dist_def split: if_splits)
qed

lemma ring_dist_next_w:
  assumes "r < n" "w < n" "ring_next n w \<noteq> r"
  shows "ring_dist n r (ring_next n w) = Suc (ring_dist n r w)"
  using assms by (auto simp: ring_dist_def ring_next_def split: if_splits)

lemma ring_dist_next_r:
  assumes "r < n" "w < n" "r \<noteq> w"
  shows "ring_dist n r w = Suc (ring_dist n (ring_next n r) w)"
  using assms by (auto simp: ring_dist_def ring_next_def split: if_splits)

lemma ring_slot_shift:
  assumes "r < n"
  shows "(ring_next n r + i) mod n = (r + Suc i) mod n"
proof (cases "r + 1 < n")
  case True
  then show ?thesis by (simp add: ring_next_def)
next
  case False
  with assms have "Suc r = n" by simp
  then have "r + Suc i = i + n" by simp
  then have "(r + Suc i) mod n = (i + n) mod n" by (rule arg_cong)
  also have "\<dots> = i mod n" by simp
  finally show ?thesis using False by (simp add: ring_next_def)
qed

lemma pending_nat:
  assumes "valid q"
  shows "pending q = map (\<lambda>i. m_buffer q ! ((unat (m_readIndex q) + i) mod unat (m_capacity q)))
       [0..<ring_dist (unat (m_capacity q)) (unat (m_readIndex q)) (unat (m_writeIndex q))]"
  unfolding pending_def valid_size [OF assms] ring_dist_def ..

section \<open>What each operation does to the pending elements\<close>

text \<open>
  On a valid queue, a successful \<open>enqueue\<close> appends to the pending elements, a
  successful \<open>dequeue\<close> removes and returns the first of them, and \<open>clear\<close> drops them
  all.
\<close>

lemma size_ring:
  "valid q \<Longrightarrow> unat (size_cq q) =
     ring_dist (unat (m_capacity q)) (unat (m_readIndex q)) (unat (m_writeIndex q))"
  by (simp only: valid_size ring_dist_def)

lemma next_ring:
  assumes "valid q"
  shows "unat ((m_writeIndex q + 1) AND m_mask q) = ring_next (unat (m_capacity q)) (unat (m_writeIndex q))"
    and "unat ((m_readIndex q + 1) AND m_mask q) = ring_next (unat (m_capacity q)) (unat (m_readIndex q))"
  by (simp_all only: valid_next [OF assms] ring_next_def)

lemma isFull_ring:
  "valid q \<Longrightarrow> isFull q \<longleftrightarrow>
     ring_next (unat (m_capacity q)) (unat (m_writeIndex q)) = unat (m_readIndex q)"
  by (simp only: isFull_nat ring_next_def)

lemma enqueue_full: "isFull q \<Longrightarrow> enqueue v q = Inr (False, q)"
  by (simp add: isFull_def enqueue_def)

lemma dequeue_empty: "isEmpty q \<Longrightarrow> dequeue x q = Inr (False, x, q)"
  by (simp add: isEmpty_def dequeue_def)

lemma enqueue_valid:
  fixes x :: 'a
  assumes v: "valid q" and nf: "\<not> isFull q"
  defines "q' \<equiv> q\<lparr> m_buffer := (m_buffer q)[unat (m_writeIndex q) := x],
                     m_writeIndex := (m_writeIndex q + 1) AND m_mask q \<rparr>"
  shows "enqueue x q = Inr (True, q')" and "valid q'" and "pending q' = pending q @ [x]"
proof -
  let ?n = "unat (m_capacity q)" and ?r = "unat (m_readIndex q)" and ?w = "unat (m_writeIndex q)"
  note b = valid_bounds [OF v]
  show "enqueue x q = Inr (True, q')"
    using nf b(1,3) by (simp add: enqueue_def isFull_def q'_def Let_def)
  show v': "valid q'"
    unfolding q'_def by (rule valid_upd_write [OF v refl])
  have nx: "ring_next ?n ?w \<noteq> ?r"
    using nf unfolding isFull_ring [OF v] .
  have d: "ring_dist ?n ?r (ring_next ?n ?w) = Suc (ring_dist ?n ?r ?w)"
    by (rule ring_dist_next_w [OF b(2,1) nx])
  have old: "(m_buffer q)[?w := x] ! ((?r + i) mod ?n) = m_buffer q ! ((?r + i) mod ?n)"
    if "i < ring_dist ?n ?r ?w" for i
    using ring_slot_neq [OF b(2,1) that] by simp
  have new: "(m_buffer q)[?w := x] ! ((?r + ring_dist ?n ?r ?w) mod ?n) = x"
    using b(1,3) by (simp add: ring_slot_last [OF b(2,1)])
  have "pending q' =
      map (\<lambda>i. (m_buffer q)[?w := x] ! ((?r + i) mod ?n)) [0..<Suc (ring_dist ?n ?r ?w)]"
    unfolding pending_nat [OF v'] by (simp add: q'_def next_ring(1) [OF v] d)
  also have "\<dots> = pending q @ [x]"
    unfolding pending_nat [OF v] by (simp add: old new)
  finally show "pending q' = pending q @ [x]" .
qed

lemma dequeue_valid:
  assumes v: "valid q" and ne: "\<not> isEmpty q"
  defines "q' \<equiv> q\<lparr> m_readIndex := (m_readIndex q + 1) AND m_mask q \<rparr>"
  shows "dequeue x q = Inr (True, m_buffer q ! unat (m_readIndex q), q')" and "valid q'"
    and "pending q = m_buffer q ! unat (m_readIndex q) # pending q'"
proof -
  let ?n = "unat (m_capacity q)" and ?r = "unat (m_readIndex q)" and ?w = "unat (m_writeIndex q)"
  note b = valid_bounds [OF v]
  show "dequeue x q = Inr (True, m_buffer q ! unat (m_readIndex q), q')"
    using ne b(2,3) by (simp add: dequeue_def isEmpty_def q'_def Let_def)
  show v': "valid q'"
    unfolding q'_def by (rule valid_upd_read [OF v refl])
  have "?r \<noteq> ?w" using ne unfolding isEmpty_nat .
  then have d: "ring_dist ?n ?r ?w = Suc (ring_dist ?n (ring_next ?n ?r) ?w)"
    by (rule ring_dist_next_r [OF b(2,1)])
  have "pending q = map (\<lambda>i. m_buffer q ! ((?r + i) mod ?n))
      (0 # map Suc [0..<ring_dist ?n (ring_next ?n ?r) ?w])"
    unfolding pending_nat [OF v] d by (simp only: upt_conv_Cons zero_less_Suc map_Suc_upt)
  also have "\<dots> = m_buffer q ! ?r # pending q'"
    unfolding pending_nat [OF v'] using b(2)
    by (simp add: q'_def next_ring(2) [OF v] ring_slot_shift [OF b(2)] comp_def)
  finally show "pending q = m_buffer q ! unat (m_readIndex q) # pending q'" .
qed

lemma clear_valid:
  assumes "valid q"
  shows "valid (clear q)" and "pending (clear q) = []"
proof -
  show "valid (clear q)" using assms by (simp add: valid_def clear_def)
  show "pending (clear q) = []" by (simp add: pending_def size_cq_def clear_def)
qed

lemma pending_Nil_iff: "valid q \<Longrightarrow> pending q = [] \<longleftrightarrow> isEmpty q"
  by (simp add: isEmpty_iff_size pending_def)

lemma length_pending: "length (pending q) = unat (size_cq q)"
  by (simp add: pending_def)

section \<open>The power-of-two test and the doubling loop\<close>

text \<open>
  The test \<open>(capacity & (capacity - 1)) == 0\<close> holds of the powers of two and of 0, and
  of nothing else. The loop started at 1 ends at the least power of two that is not
  below the request when the request is at most \<open>2^63\<close>, and does not end otherwise.
\<close>

lemma bit_top:
  fixes n :: nat
  assumes "2 ^ k \<le> n" "n < 2 ^ Suc k"
  shows "bit n k"
proof -
  have "n div 2 ^ k = 1"
    using assms by (intro div_nat_eqI) simp_all
  then show ?thesis by (simp add: bit_iff_odd)
qed

lemma pow2_test_zero: "k < 64 \<Longrightarrow> (2 ^ k :: size_t) AND (2 ^ k - 1) = 0"
  by (simp add: and_pow2_minus_1 take_bit_eq_0_iff)

lemma pow2_test_pow2:
  fixes c :: size_t
  assumes nz: "c \<noteq> 0" and t: "c AND (c - 1) = 0"
  shows "\<exists>k<64. c = 2 ^ k"
proof -
  have pos: "1 \<le> unat c" using nz by (simp add: Suc_le_eq unat_gt_0)
  obtain k where k: "2 ^ k \<le> unat c" "unat c < 2 ^ (k + 1)"
    using ex_power_ivl1 [OF order_refl pos] by blast
  have "unat c < 2 ^ 64" using unsigned_less [of c] by simp
  with k(1) have "(2::nat) ^ k < 2 ^ 64" by (rule le_less_trans)
  then have k64: "k < 64" using power_less_imp_less_exp [of 2 k 64] by simp
  have "unat c = 2 ^ k"
  proof (rule ccontr)
    assume "unat c \<noteq> 2 ^ k"
    with k have "2 ^ k \<le> unat c - 1" "unat c - 1 < 2 ^ Suc k" by simp_all
    then have "bit (unat c - 1) k" by (rule bit_top)
    moreover have "bit (unat c) k" using k by (intro bit_top) simp_all
    ultimately have "bit (unat c AND (unat c - 1)) k" by (simp add: bit_and_iff)
    moreover have "unat (c AND (c - 1)) = unat c AND (unat c - 1)"
      by (simp only: unsigned_and_eq unat_minus_one [OF nz])
    ultimately show False using t by simp
  qed
  then have "unat c = unat (2 ^ k :: size_t)" using k64 by (simp only: unat_pow2)
  then have "c = 2 ^ k" by (simp only: word_unat_eq_iff)
  with k64 show ?thesis by blast
qed

lemma pow2_loop_reaches:
  assumes "k < 64" "\<not> (2 ^ k :: size_t) < c" "\<forall>i<k. (2 ^ i :: size_t) < c"
  shows "j \<le> k \<Longrightarrow> pow2_loop (2 ^ j) c = Some (2 ^ k)"
proof (induction "k - j" arbitrary: j)
  case 0
  then have "j = k" by simp
  with assms(2) show ?case by (subst pow2_loop.simps) simp
next
  case (Suc d)
  then have j: "j < k" "d = k - Suc j" "Suc j \<le> k" by simp_all
  have "pow2_loop (2 ^ j) c = pow2_loop (push_bit 1 (2 ^ j)) c"
    using assms(3) j(1) by (subst pow2_loop.simps) simp
  also have "push_bit 1 (2 ^ j :: size_t) = 2 ^ Suc j"
    by (simp add: push_bit_eq_mult)
  also have "pow2_loop (2 ^ Suc j) c = Some (2 ^ k)"
    by (rule Suc.hyps(1) [OF j(2,3)])
  finally show ?case .
qed

lemma pow2_loop_zero_aux:
  assumes "pow2_loop p c = Some y"
  shows "\<not> (p = 0 \<and> 0 < c)"
proof (rule pow2_loop.raw_induct [where P = "\<lambda>p c y. \<not> (p = 0 \<and> 0 < c)", OF _ assms])
  fix f :: "size_t \<Rightarrow> size_t \<Rightarrow> size_t option" and p c y
  assume IH: "\<And>p c y. f p c = Some y \<Longrightarrow> \<not> (p = 0 \<and> 0 < c)"
    and eq: "(if p < c then f (push_bit 1 p) c else Some p) = Some y"
  show "\<not> (p = 0 \<and> 0 < c)"
  proof
    assume "p = 0 \<and> 0 < c"
    with eq have "f 0 c = Some y" by simp
    from IH [OF this] \<open>p = 0 \<and> 0 < c\<close> show False by simp
  qed
qed

lemma pow2_loop_zero: "0 < c \<Longrightarrow> pow2_loop 0 c = None"
  using pow2_loop_zero_aux [of 0 c] by (cases "pow2_loop 0 c") auto

lemma pow2_loop_diverges:
  assumes "\<forall>i<64. (2 ^ i :: size_t) < c"
  shows "j \<le> 64 \<Longrightarrow> pow2_loop (2 ^ j) c = None"
proof (induction "64 - j" arbitrary: j)
  case 0
  then have "j = 64" by simp
  moreover have "(2 ^ 0 :: size_t) < c" using assms by (rule allE [where x = 0]) simp
  then have "0 < c" by (simp add: word_less_nat_alt)
  moreover have "(2 ^ 64 :: size_t) = 0" by simp
  ultimately show ?case by (simp only: pow2_loop_zero)
next
  case (Suc d)
  then have j: "j < 64" "d = 64 - Suc j" "Suc j \<le> 64" by simp_all
  have "pow2_loop (2 ^ j) c = pow2_loop (push_bit 1 (2 ^ j)) c"
    using assms j(1) by (subst pow2_loop.simps) simp
  also have "push_bit 1 (2 ^ j :: size_t) = 2 ^ Suc j"
    by (simp add: push_bit_eq_mult)
  also have "pow2_loop (2 ^ Suc j) c = None"
    by (rule Suc.hyps(1) [OF j(2,3)])
  finally show ?case .
qed

lemma least_exp:
  fixes c :: size_t
  assumes "c \<le> 2 ^ 63"
  obtains k where "k < 64" "unat c \<le> 2 ^ k" "\<forall>j. unat c \<le> 2 ^ j \<longrightarrow> k \<le> j"
    "\<not> (2 ^ k :: size_t) < c" "\<forall>i<k. (2 ^ i :: size_t) < c"
proof -
  define k where "k = (LEAST k. unat c \<le> 2 ^ k)"
  have c63: "unat c \<le> 2 ^ 63"
    using assms unat_pow2 [of 63] by (simp add: word_le_nat_alt)
  then have k1: "unat c \<le> 2 ^ k" unfolding k_def by (rule LeastI)
  have k2: "k \<le> j" if "unat c \<le> 2 ^ j" for j
    unfolding k_def using that by (rule Least_le)
  have k64: "k < 64" using k2 [OF c63] by simp
  have "\<not> (2 ^ k :: size_t) < c"
    using k1 by (simp add: word_less_nat_alt unat_pow2 [OF k64])
  moreover have "(2 ^ i :: size_t) < c" if "i < k" for i
  proof -
    have "i < 64" using that k64 by simp
    moreover have "\<not> unat c \<le> 2 ^ i" using k2 [of i] that by auto
    ultimately show ?thesis by (simp add: word_less_nat_alt unat_pow2)
  qed
  ultimately show thesis using that [of k] k1 k2 k64 by blast
qed

lemma resize_replicate:
  "m \<le> n \<Longrightarrow> resize max_size n d (replicate m d) =
     (if max_size < n then Inl LengthError else Inr (replicate n d))"
  by (simp add: resize_def flip: replicate_add)

lemma ctor_length_error:
  assumes "max_size < unat c"
  shows "CircularQueue_ctor max_size d c = Some (Inl LengthError)"
  using assms by (simp add: CircularQueue_ctor_def vector_n_def)

lemma ctor_returns:
  fixes c :: size_t
  assumes nz: "c \<noteq> 0" and le: "c \<le> 2 ^ 63"
  obtains k where "k < 64" "unat c \<le> 2 ^ k" "\<forall>j. unat c \<le> 2 ^ j \<longrightarrow> k \<le> j"
    "CircularQueue_ctor max_size d c =
       (if 2 ^ k \<le> max_size
        then Some (Inr \<lparr> m_capacity = 2 ^ k, m_mask = 2 ^ k - 1,
                         m_buffer = replicate (2 ^ k) d,
                         m_writeIndex = 0, m_readIndex = 0 \<rparr>)
        else Some (Inl LengthError))"
proof -
  from le obtain k where k: "k < 64" "unat c \<le> 2 ^ k" "\<forall>j. unat c \<le> 2 ^ j \<longrightarrow> k \<le> j"
    "\<not> (2 ^ k :: size_t) < c" "\<forall>i<k. (2 ^ i :: size_t) < c"
    by (rule least_exp)
  show thesis
  proof (cases "max_size < unat c")
    case True
    with k(2) have "\<not> 2 ^ k \<le> max_size" by simp
    with ctor_length_error [OF True, of d] k show thesis using that by simp
  next
    case fits: False
    show thesis
    proof (cases "c AND (c - 1) = 0")
      case True
      with nz obtain k' where k': "k' < 64" "c = 2 ^ k'"
        using pow2_test_pow2 by blast
      have u: "unat c = 2 ^ k'" using k' by (simp only: unat_pow2)
      have "k \<le> k'" using k(3) u by simp
      moreover have "k' \<le> k" using k(2) unfolding u by simp
      ultimately have "k' = k" by simp
      with True k' u fits have "CircularQueue_ctor max_size d c =
         (if 2 ^ k \<le> max_size
          then Some (Inr \<lparr> m_capacity = 2 ^ k, m_mask = 2 ^ k - 1,
                           m_buffer = replicate (2 ^ k) d,
                           m_writeIndex = 0, m_readIndex = 0 \<rparr>)
          else Some (Inl LengthError))"
        by (simp add: CircularQueue_ctor_def vector_n_def)
      with k show thesis using that by blast
    next
      case False
      have "pow2_loop 1 c = Some (2 ^ k)"
        using pow2_loop_reaches [OF k(1,4,5), of 0] by simp
      with False k(2) fits have "CircularQueue_ctor max_size d c =
         (if 2 ^ k \<le> max_size
          then Some (Inr \<lparr> m_capacity = 2 ^ k, m_mask = 2 ^ k - 1,
                           m_buffer = replicate (2 ^ k) d,
                           m_writeIndex = 0, m_readIndex = 0 \<rparr>)
          else Some (Inl LengthError))"
        by (simp add: CircularQueue_ctor_def vector_n_def unat_pow2 [OF k(1)]
            resize_replicate not_le)
      with k show thesis using that by blast
    qed
  qed
qed

lemma ctor_diverges:
  fixes c :: size_t
  assumes "2 ^ 63 < c" and "unat c \<le> max_size"
  shows "CircularQueue_ctor max_size d c = None"
proof -
  have big: "(2 ^ i :: size_t) < c" if "i < 64" for i
  proof -
    have "(2::nat) ^ i \<le> 2 ^ 63" using that by (intro power_increasing) simp_all
    moreover have "2 ^ 63 < unat c"
      using assms(1) unat_pow2 [of 63] by (simp add: word_less_nat_alt)
    ultimately show ?thesis using that by (simp add: word_less_nat_alt unat_pow2)
  qed
  then have "pow2_loop 1 c = None"
    using pow2_loop_diverges [of c 0] by simp
  moreover have "c AND (c - 1) \<noteq> 0"
  proof
    assume "c AND (c - 1) = 0"
    moreover have "c \<noteq> 0" using assms(1) by auto
    ultimately obtain k where "k < 64" "c = 2 ^ k" using pow2_test_pow2 by blast
    with big [of k] show False by simp
  qed
  ultimately show ?thesis
    using assms(2) by (simp add: CircularQueue_ctor_def vector_n_def)
qed

lemma ctor_zero:
  "CircularQueue_ctor max_size d 0 =
     Some (Inr \<lparr> m_capacity = 0, m_mask = - 1, m_buffer = [],
                 m_writeIndex = 0, m_readIndex = 0 \<rparr>)"
  by (simp add: CircularQueue_ctor_def vector_n_def)

text \<open>
  When \<open>max_size()\<close> is below \<open>2^63\<close>, as it is on a 64-bit platform, the constructor
  always comes to an end: a request that would keep the loop running has thrown before.
\<close>

lemma ctor_terminates:
  assumes "max_size < 2 ^ 63"
  shows "CircularQueue_ctor max_size d c \<noteq> None"
proof (cases "max_size < unat c")
  case True
  then show ?thesis by (simp add: ctor_length_error)
next
  case False
  with assms have "unat c \<le> 2 ^ 63" by simp
  then have le: "c \<le> 2 ^ 63"
    using unat_pow2 [of 63] by (simp add: word_le_nat_alt)
  show ?thesis
  proof (cases "c = 0")
    case True
    then show ?thesis by (simp add: ctor_zero)
  next
    case nz: False
    from nz le obtain k where "CircularQueue_ctor max_size d c =
       (if 2 ^ k \<le> max_size
        then Some (Inr \<lparr> m_capacity = 2 ^ k, m_mask = 2 ^ k - 1,
                         m_buffer = replicate (2 ^ k) d,
                         m_writeIndex = 0, m_readIndex = 0 \<rparr>)
        else Some (Inl LengthError))"
      by (rule ctor_returns)
    then show ?thesis by simp
  qed
qed

section \<open>Sequences of calls keep the invariant\<close>

text \<open>
  \<open>forceEnqueue\<close> on a full queue drops the oldest pending element and appends the new
  one; in a queue of capacity 1 nothing is ever pending. Every call on a valid queue is
  defined and leaves a valid queue of the same capacity, and a successful \<open>dequeue\<close>
  returns a value that was pending or was inserted since. The queue left by a request
  of 0 only admits the calls that do not touch the storage, and they do not change it.
\<close>

lemma pending_cap1:
  assumes "valid q" "unat (m_capacity q) = 1"
  shows "pending q = []"
  using size_le [OF assms(1)] assms(2) by (simp add: pending_def)

lemma ring_next_fix: "r < n \<Longrightarrow> ring_next n r = r \<Longrightarrow> n = 1"
  by (auto simp: ring_next_def split: if_splits)

lemma forceEnqueue_valid:
  fixes x :: 'a
  assumes v: "valid q"
  obtains q' where "forceEnqueue x q = Inr q'" "valid q'" "m_capacity q' = m_capacity q"
    "pending q' = (if isFull q then tl (pending q @ [x]) else pending q @ [x])"
proof (cases "isFull q")
  case False
  define q' where "q' = q\<lparr> m_buffer := (m_buffer q)[unat (m_writeIndex q) := x],
                     m_writeIndex := (m_writeIndex q + 1) AND m_mask q \<rparr>"
  note e = enqueue_valid [OF v False, of x, folded q'_def]
  have "forceEnqueue x q = Inr q'"
    using False valid_bounds(1,3) [OF v]
    by (simp add: forceEnqueue_def isFull_def q'_def Let_def)
  moreover have "m_capacity q' = m_capacity q" by (simp add: q'_def)
  ultimately show thesis using that e(2,3) False by simp
next
  case True
  let ?n = "unat (m_capacity q)" and ?r = "unat (m_readIndex q)" and ?w = "unat (m_writeIndex q)"
  note b = valid_bounds [OF v]
  define q1 where "q1 = q\<lparr> m_readIndex := (m_readIndex q + 1) AND m_mask q \<rparr>"
  define q' where "q' = q1\<lparr> m_buffer := (m_buffer q1)[unat (m_writeIndex q1) := x],
                     m_writeIndex := (m_writeIndex q1 + 1) AND m_mask q1 \<rparr>"
  have v1: "valid q1" unfolding q1_def by (rule valid_upd_read [OF v refl])
  have v': "valid q'" unfolding q'_def by (rule valid_upd_write [OF v1 refl])
  have f: "forceEnqueue x q = Inr q'"
    using True b(1,3) by (simp add: forceEnqueue_def isFull_def q'_def q1_def Let_def)
  have cap: "m_capacity q' = m_capacity q" by (simp add: q'_def q1_def)
  have full: "ring_next ?n ?w = ?r" using True unfolding isFull_ring [OF v] .
  show thesis
  proof (cases "isFull q1")
    case full1: True
    have "ring_next ?n ?w = ring_next ?n ?r"
      using full1 unfolding isFull_ring [OF v1] by (simp add: q1_def next_ring(2) [OF v])
    with full have "ring_next ?n ?r = ?r" by simp
    then have "?n = 1" by (rule ring_next_fix [OF b(2)])
    then have "pending q' = []" "pending q = []"
      using pending_cap1 [OF v'] pending_cap1 [OF v] cap by simp_all
    with f v' cap True show thesis using that by simp
  next
    case False
    have "?r \<noteq> ?w"
    proof
      assume "?r = ?w"
      with full have "ring_next ?n ?r = ?r" by simp
      then have "?n = 1" by (rule ring_next_fix [OF b(2)])
      with b(2) have "ring_next ?n ?r = ?r" by (simp add: ring_next_def)
      then have "isFull q1" unfolding isFull_ring [OF v1]
        using full by (simp add: q1_def next_ring(2) [OF v])
      with False show False by simp
    qed
    then have ne: "\<not> isEmpty q" unfolding isEmpty_nat .
    have p: "pending q = m_buffer q ! unat (m_readIndex q) # pending q1"
      unfolding q1_def by (rule dequeue_valid(3) [OF v ne])
    have "pending q' = pending q1 @ [x]"
      unfolding q'_def by (rule enqueue_valid(3) [OF v1 False])
    then have "pending q' = tl (pending q @ [x])" by (simp add: p)
    with f v' cap True show thesis using that by simp
  qed
qed

lemma step_degenerate:
  "step c degenerate = Inr (r, q') \<Longrightarrow> q' = degenerate \<and> (\<forall>y. r \<noteq> DeqRet True y)"
  by (cases c)
    (auto simp: degenerate_def enqueue_def forceEnqueue_def dequeue_def clear_def)

lemma run_degenerate:
  "run cs degenerate = Inr (rs, q') \<Longrightarrow> q' = degenerate"
proof (induction cs arbitrary: rs)
  case Nil
  then show ?case by simp
next
  case (Cons c cs)
  then show ?case
    by (auto split: sum.splits dest!: step_degenerate)
qed

lemma step_valid:
  assumes v: "valid q"
  obtains r q' where "step c q = Inr (r, q')" "valid q'" "m_capacity q' = m_capacity q"
    "set (pending q') \<subseteq> set (pending q) \<union> set (inserted [c])"
    "\<And>y. r = DeqRet True y \<Longrightarrow> y \<in> set (pending q)"
proof (cases c)
  case (Enqueue x)
  show thesis
  proof (cases "isFull q")
    case True
    then have "step c q = Inr (EnqRet False, q)"
      by (simp add: Enqueue enqueue_full)
    then show thesis using that v by auto
  next
    case False
    note e = enqueue_valid [OF v False, of x]
    from e(1) have "step c q = Inr (EnqRet True, q\<lparr> m_buffer := (m_buffer q)[unat (m_writeIndex q) := x],
                     m_writeIndex := (m_writeIndex q + 1) AND m_mask q \<rparr>)"
      by (simp add: Enqueue)
    then show thesis using that [OF _ e(2)] e(3) by (simp add: Enqueue)
  qed
next
  case (ForceEnqueue x)
  obtain q' where f: "forceEnqueue x q = Inr q'" "valid q'" "m_capacity q' = m_capacity q"
    "pending q' = (if isFull q then tl (pending q @ [x]) else pending q @ [x])"
    using forceEnqueue_valid [OF v] by blast
  have "set (pending q') \<subseteq> set (pending q) \<union> {x}"
    unfolding f(4) by (cases "pending q") auto
  moreover have "step c q = Inr (ForceRet, q')" using f(1) by (simp add: ForceEnqueue)
  ultimately show thesis using that [OF _ f(2,3)] by (simp add: ForceEnqueue)
next
  case (Dequeue x)
  show thesis
  proof (cases "isEmpty q")
    case True
    then have "step c q = Inr (DeqRet False x, q)"
      by (simp add: Dequeue dequeue_empty)
    then show thesis using that v by auto
  next
    case False
    note d = dequeue_valid(1) [OF v False, of x] dequeue_valid(2,3) [OF v False]
    from d(1) have "step c q = Inr (DeqRet True (m_buffer q ! unat (m_readIndex q)),
        q\<lparr> m_readIndex := (m_readIndex q + 1) AND m_mask q \<rparr>)"
      by (simp add: Dequeue)
    then show thesis using that [OF _ d(2)] d(3) by (auto simp add: Dequeue)
  qed
next
  case Clear
  have "step c q = Inr (ClearRet, clear q)" by (simp add: Clear)
  moreover have "m_capacity (clear q) = m_capacity q" by (simp add: clear_def)
  ultimately show thesis using that [OF _ clear_valid(1) [OF v]] clear_valid(2) [OF v] by simp
qed

lemma run_valid:
  assumes "valid q"
  shows "\<exists>rs q'. run cs q = Inr (rs, q') \<and> valid q' \<and> m_capacity q' = m_capacity q \<and>
     set (pending q') \<subseteq> set (pending q) \<union> set (inserted cs) \<and>
     (\<forall>y. DeqRet True y \<in> set rs \<longrightarrow> y \<in> set (pending q) \<union> set (inserted cs))"
  using assms
proof (induction cs arbitrary: q)
  case Nil
  then show ?case by simp
next
  case (Cons c cs)
  obtain r q1 where s: "step c q = Inr (r, q1)" "valid q1" "m_capacity q1 = m_capacity q"
    "set (pending q1) \<subseteq> set (pending q) \<union> set (inserted [c])"
    "\<And>y. r = DeqRet True y \<Longrightarrow> y \<in> set (pending q)"
    using step_valid [OF Cons.prems] by blast
  from Cons.IH [OF s(2)] obtain rs q' where
    r: "run cs q1 = Inr (rs, q')" "valid q'" "m_capacity q' = m_capacity q1"
      "set (pending q') \<subseteq> set (pending q1) \<union> set (inserted cs)"
      "\<forall>y. DeqRet True y \<in> set rs \<longrightarrow> y \<in> set (pending q1) \<union> set (inserted cs)"
    by blast
  have i: "set (inserted (c # cs)) = set (inserted [c]) \<union> set (inserted cs)"
    by (cases c) auto
  have "run (c # cs) q = Inr (r # rs, q')" using s(1) r(1) by simp
  moreover have "set (pending q') \<subseteq> set (pending q) \<union> set (inserted (c # cs))"
    using r(4) s(4) unfolding i by blast
  moreover have "\<forall>y. DeqRet True y \<in> set (r # rs) \<longrightarrow> y \<in> set (pending q) \<union> set (inserted (c # cs))"
    using r(5) s(4,5) unfolding i by auto
  ultimately show ?case using r(2,3) s(3) by simp
qed

lemma ctor_inv:
  assumes "CircularQueue_ctor max_size d c = Some (Inr q)"
  shows "(c = 0 \<and> q = degenerate) \<or> (c \<noteq> 0 \<and> valid q \<and> isEmpty q)"
proof (cases "c = 0")
  case True
  with assms show ?thesis by (simp add: ctor_zero degenerate_def)
next
  case False
  have fits: "unat c \<le> max_size"
  proof (rule ccontr)
    assume "\<not> unat c \<le> max_size"
    then have "max_size < unat c" by simp
    from ctor_length_error [OF this, of d] assms show False by simp
  qed
  have "c \<le> 2 ^ 63"
  proof (rule ccontr)
    assume "\<not> c \<le> 2 ^ 63"
    then have "2 ^ 63 < c" by simp
    from ctor_diverges [OF this fits, of d] assms show False by simp
  qed
  with False obtain k where k: "k < 64"
    "CircularQueue_ctor max_size d c =
       (if 2 ^ k \<le> max_size
        then Some (Inr \<lparr> m_capacity = 2 ^ k, m_mask = 2 ^ k - 1,
                         m_buffer = replicate (2 ^ k) d,
                         m_writeIndex = 0, m_readIndex = 0 \<rparr>)
        else Some (Inl LengthError))"
    using ctor_returns [of c max_size d] by blast
  from k(2) assms have q: "q = \<lparr> m_capacity = 2 ^ k, m_mask = 2 ^ k - 1,
      m_buffer = replicate (2 ^ k) d, m_writeIndex = 0, m_readIndex = 0 \<rparr>"
    by (simp split: if_splits)
  have "(0 :: size_t) < 2 ^ k"
    using k(1) by (simp add: word_less_nat_alt unat_pow2)
  then have "valid q"
    unfolding valid_def q using k(1) by (auto simp: unat_pow2)
  moreover have "isEmpty q" by (simp add: q isEmpty_def)
  ultimately show ?thesis using False by simp
qed

lemma reachable_inv:
  assumes "CircularQueue_ctor max_size d c = Some (Inr q0)" "run cs q0 = Inr (rs, q)"
  shows "(c = 0 \<and> q = degenerate) \<or> (c \<noteq> 0 \<and> valid q \<and> m_capacity q = m_capacity q0)"
  using ctor_inv [OF assms(1)]
proof (elim disjE conjE)
  assume "c = 0" "q0 = degenerate"
  with assms(2) run_degenerate [of cs rs q] show ?thesis by simp
next
  assume "c \<noteq> 0" "valid q0"
  with run_valid [OF \<open>valid q0\<close>, of cs] assms(2) show ?thesis by auto
qed

lemma enqueue_all:
  assumes "valid q" "length (pending q) + length vs \<le> unat (m_capacity q) - 1"
  shows "\<exists>q'. run (map Enqueue vs) q = Inr (map (\<lambda>v. EnqRet True) vs, q') \<and> valid q' \<and>
     m_capacity q' = m_capacity q \<and> pending q' = pending q @ vs"
  using assms
proof (induction vs arbitrary: q)
  case Nil
  then show ?case by simp
next
  case (Cons v vs)
  let ?q1 = "q\<lparr> m_buffer := (m_buffer q)[unat (m_writeIndex q) := v],
                     m_writeIndex := (m_writeIndex q + 1) AND m_mask q \<rparr>"
  have nf: "\<not> isFull q"
    using Cons.prems by (simp add: isFull_iff_size length_pending)
  note e = enqueue_valid [OF Cons.prems(1) nf, of v]
  have "length (pending ?q1) + length vs \<le> unat (m_capacity ?q1) - 1"
    using Cons.prems(2) by (simp add: e(3))
  from Cons.IH [OF e(2) this] obtain q' where
    q': "run (map Enqueue vs) ?q1 = Inr (map (\<lambda>v. EnqRet True) vs, q')" "valid q'"
      "m_capacity q' = m_capacity ?q1" "pending q' = pending ?q1 @ vs"
    by blast
  have "run (map Enqueue (v # vs)) q = Inr (map (\<lambda>v. EnqRet True) (v # vs), q')"
    using e(1) q'(1) by simp
  with q'(2,3,4) e(3) show ?case by simp
qed

lemma dequeue_all:
  assumes "valid q" "pending q = vs @ rest" "length outs = length vs"
  shows "\<exists>q'. run (map Dequeue outs) q = Inr (map (DeqRet True) vs, q') \<and> valid q' \<and>
     m_capacity q' = m_capacity q \<and> pending q' = rest"
  using assms
proof (induction vs arbitrary: q outs)
  case Nil
  then show ?case by simp
next
  case (Cons v vs)
  then obtain out outs' where outs: "outs = out # outs'" "length outs' = length vs"
    by (cases outs) auto
  let ?q1 = "q\<lparr> m_readIndex := (m_readIndex q + 1) AND m_mask q \<rparr>"
  have ne: "\<not> isEmpty q"
    using Cons.prems(1,2) by (simp flip: pending_Nil_iff)
  note d = dequeue_valid(1) [OF Cons.prems(1) ne, of out] dequeue_valid(2,3) [OF Cons.prems(1) ne]
  from d(3) Cons.prems(2) have hd: "m_buffer q ! unat (m_readIndex q) = v"
    and tl: "pending ?q1 = vs @ rest" by simp_all
  from Cons.IH [OF d(2) tl outs(2)] obtain q' where
    q': "run (map Dequeue outs') ?q1 = Inr (map (DeqRet True) vs, q')" "valid q'"
      "m_capacity q' = m_capacity ?q1" "pending q' = rest"
    by blast
  have "run (map Dequeue outs) q = Inr (map (DeqRet True) (v # vs), q')"
    using d(1) q'(1) hd by (simp add: outs(1))
  with q'(2,3,4) show ?case by simp
qed


lemma unat_minus_1_cap: "valid q \<Longrightarrow> unat (m_capacity q - 1) = unat (m_capacity q) - 1"
  using valid_bounds(1) [of q] by (intro unat_minus_one) auto

lemma unat_pow2_word:
  fixes c :: size_t
  assumes "unat c = 2 ^ j"
  shows "j < 64" and "c = 2 ^ j"
proof -
  have "unat c < 2 ^ 64" using unsigned_less [of c] by simp
  then have "(2::nat) ^ j < 2 ^ 64" using assms by simp
  then show j: "j < 64" using power_less_imp_less_exp [of 2 j 64] by simp
  then have "unat c = unat (2 ^ j :: size_t)" using assms by (simp only: unat_pow2)
  then show "c = 2 ^ j" by (simp only: word_unat_eq_iff)
qed

section \<open>The claims\<close>

text \<open>
  Claim C1 (FIFO round trip). Take any queue that the constructor returned, after any
  sequence of calls that left it empty, and any values \<open>vs\<close> with at most
  \<open>capacity - 1\<close> of them. Then enqueueing them one after the other succeeds every
  time, the same number of \<open>dequeue\<close> calls succeeds every time and delivers exactly
  \<open>vs\<close> in order, and the queue is empty afterwards. In particular, when the capacity is
  at least 2, one \<open>enqueue\<close> followed by one \<open>dequeue\<close> returns the value inserted.
\<close>

theorem fifo_round_trip:
  assumes "CircularQueue_ctor max_size d c = Some (Inr qi)" and "run cs qi = Inr (rs, q0)"
    and "isEmpty q0" and "length vs \<le> unat (capacity q0) - 1" and "length outs = length vs"
  shows "(\<exists>q1 q2. run (map Enqueue vs) q0 = Inr (map (\<lambda>v. EnqRet True) vs, q1) \<and>
            run (map Dequeue outs) q1 = Inr (map (DeqRet True) vs, q2) \<and> isEmpty q2) \<and>
         (2 \<le> unat (capacity q0) \<longrightarrow>
           (\<exists>q1 q2. enqueue v q0 = Inr (True, q1) \<and> dequeue out q1 = Inr (True, v, q2) \<and>
              isEmpty q2))"
  using reachable_inv [OF assms(1,2)]
proof (elim disjE conjE)
  assume "q0 = degenerate"
  then have "vs = []" "outs = []" "unat (capacity q0) = 0"
    using assms(4,5) by (simp_all add: degenerate_def capacity_def)
  with assms(3) show ?thesis by simp
next
  assume v: "valid q0"
  have p: "pending q0 = []" using assms(3) by (simp add: pending_Nil_iff [OF v])
  have all: "\<exists>q1 q2. run (map Enqueue xs) q0 = Inr (map (\<lambda>v. EnqRet True) xs, q1) \<and>
            run (map Dequeue os) q1 = Inr (map (DeqRet True) xs, q2) \<and> isEmpty q2"
    if len: "length xs \<le> unat (capacity q0) - 1" "length os = length xs" for xs os
  proof -
    from len(1) have "length (pending q0) + length xs \<le> unat (m_capacity q0) - 1"
      by (simp add: capacity_def p)
    from enqueue_all [OF v this] obtain q1 where
      q1: "run (map Enqueue xs) q0 = Inr (map (\<lambda>v. EnqRet True) xs, q1)" "valid q1"
        "pending q1 = xs @ []" by (auto simp: p)
    from dequeue_all [OF q1(2,3) len(2)] obtain q2 where
      q2: "run (map Dequeue os) q1 = Inr (map (DeqRet True) xs, q2)" "valid q2" "pending q2 = []"
      by blast
    from q2(2,3) have "isEmpty q2" by (simp add: pending_Nil_iff)
    with q1(1) q2(1) show ?thesis by blast
  qed
  have one: "\<exists>q1 q2. enqueue v q0 = Inr (True, q1) \<and> dequeue out q1 = Inr (True, v, q2) \<and>
              isEmpty q2" if "2 \<le> unat (capacity q0)"
  proof -
    from that have "length [v] \<le> unat (capacity q0) - 1" by simp
    from all [OF this, of "[out]"] obtain q1 q2 where
      "run [Enqueue v] q0 = Inr ([EnqRet True], q1)"
      "run [Dequeue out] q1 = Inr ([DeqRet True v], q2)" "isEmpty q2" by auto
    then show ?thesis
      by (auto split: sum.splits prod.splits)
  qed
  from all [OF assms(4,5)] one show ?thesis by blast
qed

theorem fifo_round_trip_witness:
  "(\<exists>q1 q2. run (map Enqueue [10, 20, 30 :: nat])
              \<lparr> m_capacity = 4, m_mask = 3, m_buffer = replicate 4 0,
                m_writeIndex = 0, m_readIndex = 0 \<rparr>
            = Inr ([EnqRet True, EnqRet True, EnqRet True], q1) \<and>
           run (map Dequeue [0, 0, 0]) q1
            = Inr ([DeqRet True 10, DeqRet True 20, DeqRet True 30], q2) \<and> isEmpty q2) \<and>
   (\<exists>q1 q2. enqueue (7 :: nat) \<lparr> m_capacity = 4, m_mask = 3, m_buffer = replicate 4 0,
                m_writeIndex = 0, m_readIndex = 0 \<rparr> = Inr (True, q1) \<and>
       dequeue 0 q1 = Inr (True, 7, q2) \<and> isEmpty q2)"
proof -
  let ?init = "\<lparr> m_capacity = 4, m_mask = 3, m_buffer = replicate 4 (0 :: nat),
                 m_writeIndex = 0, m_readIndex = 0 \<rparr>"
  have h1: "CircularQueue_ctor (2 ^ 63 - 1) (0 :: nat) 4 = Some (Inr ?init)"
    by (simp add: CircularQueue_ctor_def vector_n_def)
  have h2: "run [] ?init = Inr ([], ?init)" by simp
  have h3: "isEmpty ?init" by (simp add: isEmpty_def)
  have h4: "length [10, 20, 30 :: nat] \<le> unat (capacity ?init) - 1"
    by (simp add: capacity_def)
  have h5: "length [0, 0, 0 :: nat] = length [10, 20, 30 :: nat]" by simp
  from fifo_round_trip [OF h1 h2 h3 h4 h5, of 7 0] show ?thesis
    by (simp add: capacity_def)
qed

text \<open>
  Claim C2 (filling a queue of capacity 8). Take any queue of capacity 8 that the
  constructor returned, after any sequence of calls that left it empty. Seven \<open>enqueue\<close>
  calls return \<open>true\<close>. The eighth returns \<open>false\<close> and changes nothing, \<open>isFull()\<close> is
  true and \<open>size()\<close> is 7; the ninth returns \<open>false\<close> as well. \<open>forceEnqueue\<close> then
  inserts its item: seven \<open>dequeue\<close> calls deliver the second to the seventh element and
  then the forced one, and leave the queue empty. The oldest element \<open>v1\<close> is gone:
  whatever calls follow the \<open>forceEnqueue\<close>, none of them is undefined behaviour and no
  \<open>dequeue\<close> among them returns \<open>v1\<close>. Elements are told apart by their value, so this
  is said of a \<open>v1\<close> that differs from the other elements in the queue and from the
  values inserted later.
\<close>

theorem fill_then_force:
  assumes "CircularQueue_ctor max_size d c = Some (Inr qi)" and "run cs qi = Inr (rs, q0)"
    and "isEmpty q0" and "capacity q0 = 8" and "length outs = 7"
  shows "\<exists>q7 q8 q9.
      run (map Enqueue [v1, v2, v3, v4, v5, v6, v7]) q0 = Inr (replicate 7 (EnqRet True), q7) \<and>
      enqueue v8 q7 = Inr (False, q7) \<and> isFull q7 \<and> size_cq q7 = 7 \<and>
      enqueue v9 q7 = Inr (False, q7) \<and>
      forceEnqueue x q7 = Inr q8 \<and>
      run (map Dequeue outs) q8 = Inr (map (DeqRet True) [v2, v3, v4, v5, v6, v7, x], q9) \<and>
      isEmpty q9 \<and>
      (\<forall>cs'. \<exists>rs' q'. run cs' q8 = Inr (rs', q') \<and>
         (v1 \<notin> set [v2, v3, v4, v5, v6, v7, x] \<and> v1 \<notin> set (inserted cs')
            \<longrightarrow> DeqRet True v1 \<notin> set rs'))"
proof -
  have c0: "m_capacity q0 = 8" using assms(4) by (simp add: capacity_def)
  from reachable_inv [OF assms(1,2)] c0 have v: "valid q0"
    by (auto simp: degenerate_def)
  have p: "pending q0 = []" using assms(3) by (simp add: pending_Nil_iff [OF v])
  have "length (pending q0) + length [v1, v2, v3, v4, v5, v6, v7] \<le> unat (m_capacity q0) - 1"
    by (simp add: p c0)
  from enqueue_all [OF v this] obtain q7 where
    q7: "run (map Enqueue [v1, v2, v3, v4, v5, v6, v7]) q0 = Inr (replicate 7 (EnqRet True), q7)"
      "valid q7" "m_capacity q7 = 8" "pending q7 = [v1, v2, v3, v4, v5, v6, v7]"
    by (auto simp: p c0 numeral_eq_Suc)
  have s7: "unat (size_cq q7) = 7"
    using length_pending [of q7] by (simp add: q7(4))
  then have full: "isFull q7" by (simp add: isFull_iff_size [OF q7(2)] q7(3))
  have "unat (size_cq q7) = unat (7 :: size_t)" using s7 by simp
  then have size7: "size_cq q7 = 7" by (simp only: word_unat_eq_iff)
  obtain q8 where q8: "forceEnqueue x q7 = Inr q8" "valid q8"
    "pending q8 = (if isFull q7 then tl (pending q7 @ [x]) else pending q7 @ [x])"
    using forceEnqueue_valid [OF q7(2), of x] by blast
  from q8(3) full have p8: "pending q8 = [v2, v3, v4, v5, v6, v7, x] @ []"
    by (simp add: q7(4))
  have "length outs = length [v2, v3, v4, v5, v6, v7, x]" using assms(5) by simp
  from dequeue_all [OF q8(2) p8 this] obtain q9 where
    q9: "run (map Dequeue outs) q8 = Inr (map (DeqRet True) [v2, v3, v4, v5, v6, v7, x], q9)"
      "valid q9" "pending q9 = []" by blast
  have e9: "isEmpty q9" using q9(2,3) by (simp add: pending_Nil_iff)
  have later: "\<exists>rs' q'. run cs' q8 = Inr (rs', q') \<and>
         (v1 \<notin> set [v2, v3, v4, v5, v6, v7, x] \<and> v1 \<notin> set (inserted cs')
            \<longrightarrow> DeqRet True v1 \<notin> set rs')" for cs'
  proof -
    from run_valid [OF q8(2), of cs'] obtain rs' q' where
      r: "run cs' q8 = Inr (rs', q')"
        "\<forall>y. DeqRet True y \<in> set rs' \<longrightarrow> y \<in> set (pending q8) \<union> set (inserted cs')"
      by blast
    from r(2) have "v1 \<notin> set [v2, v3, v4, v5, v6, v7, x] \<and> v1 \<notin> set (inserted cs')
            \<longrightarrow> DeqRet True v1 \<notin> set rs'"
      unfolding p8 by auto
    with r(1) show ?thesis by blast
  qed
  from q7(1) enqueue_full [OF full] full size7 q8(1) q9(1) e9 later
  show ?thesis by blast
qed

theorem fill_then_force_witness:
  "\<exists>q7 q8 q9.
      run (map Enqueue [1, 2, 3, 4, 5, 6, 7 :: nat])
        \<lparr> m_capacity = 8, m_mask = 7, m_buffer = replicate 8 0,
          m_writeIndex = 0, m_readIndex = 0 \<rparr> = Inr (replicate 7 (EnqRet True), q7) \<and>
      enqueue 8 q7 = Inr (False, q7) \<and> isFull q7 \<and> size_cq q7 = 7 \<and>
      enqueue 9 q7 = Inr (False, q7) \<and>
      forceEnqueue 10 q7 = Inr q8 \<and>
      run (map Dequeue [0, 0, 0, 0, 0, 0, 0]) q8
        = Inr (map (DeqRet True) [2, 3, 4, 5, 6, 7, 10], q9) \<and>
      isEmpty q9 \<and>
      (\<forall>cs'. \<exists>rs' q'. run cs' q8 = Inr (rs', q') \<and>
         ((1 :: nat) \<notin> set [2, 3, 4, 5, 6, 7, 10] \<and> 1 \<notin> set (inserted cs')
            \<longrightarrow> DeqRet True 1 \<notin> set rs'))"
proof -
  let ?init = "\<lparr> m_capacity = 8, m_mask = 7, m_buffer = replicate 8 (0 :: nat),
                m_writeIndex = 0, m_readIndex = 0 \<rparr>"
  have h1: "CircularQueue_ctor (2 ^ 63 - 1) (0 :: nat) 5 = Some (Inr ?init)"
    by (simp add: CircularQueue_ctor_def vector_n_def pow2_loop.simps resize_replicate)
  have h2: "run [] ?init = Inr ([], ?init)" by simp
  have h3: "isEmpty ?init" by (simp add: isEmpty_def)
  have h4: "capacity ?init = 8" by (simp add: capacity_def)
  have h5: "length [0, 0, 0, 0, 0, 0, 0 :: nat] = 7" by simp
  show ?thesis by (rule fill_then_force [OF h1 h2 h3 h4 h5])
qed

text \<open>
  Claim C3 (no mutation on full). In every state in which \<open>isFull()\<close> holds, that is,
  the write cursor advanced by one and masked is the read cursor, \<open>enqueue\<close> returns
  \<open>false\<close> and the queue after the call is the queue before it: cursors, storage,
  capacity and mask.
\<close>

theorem enqueue_full_no_mutation:
  assumes "isFull q"
  shows "enqueue item q = Inr (False, q)"
  using assms by (simp add: isFull_def enqueue_def)

theorem enqueue_full_no_mutation_witness:
  "isFull \<lparr> m_capacity = 2, m_mask = 1, m_buffer = [5, 0 :: nat], m_writeIndex = 0, m_readIndex = 1 \<rparr> \<and>
   enqueue 6 \<lparr> m_capacity = 2, m_mask = 1, m_buffer = [5, 0 :: nat], m_writeIndex = 0, m_readIndex = 1 \<rparr>
     = Inr (False, \<lparr> m_capacity = 2, m_mask = 1, m_buffer = [5, 0], m_writeIndex = 0, m_readIndex = 1 \<rparr>)"
proof -
  have f: "isFull \<lparr> m_capacity = 2, m_mask = 1, m_buffer = [5, 0 :: nat], m_writeIndex = 0, m_readIndex = 1 \<rparr>"
    by (simp add: isFull_def)
  from f enqueue_full_no_mutation [OF f, of 6] show ?thesis by simp
qed

text \<open>
  Claim C4 (contract of \<open>dequeue\<close>). In every state that the constructor and any
  sequence of calls lead to: if the queue is empty, \<open>dequeue\<close> returns \<open>false\<close>, the
  caller's variable keeps its value and the queue is unchanged; otherwise \<open>dequeue\<close>
  returns \<open>true\<close>, the caller's variable holds the slot at the read cursor, and the only
  change to the queue is the read cursor, advanced by one and masked. The empty case
  holds of any state at all (lemma \<open>dequeue_empty\<close>).
\<close>

theorem dequeue_contract:
  assumes "CircularQueue_ctor max_size d c = Some (Inr q0)" and "run cs q0 = Inr (rs, q)"
  shows "if isEmpty q then dequeue out q = Inr (False, out, q)
         else dequeue out q =
                Inr (True, m_buffer q ! unat (m_readIndex q),
                     q\<lparr> m_readIndex := (m_readIndex q + 1) AND m_mask q \<rparr>)"
proof (cases "isEmpty q")
  case True
  then show ?thesis by (simp add: dequeue_empty)
next
  case False
  with reachable_inv [OF assms] have "valid q"
    by (auto simp: degenerate_def isEmpty_def)
  from dequeue_valid(1) [OF this False] False show ?thesis by simp
qed

theorem dequeue_contract_witness:
  "dequeue (0 :: nat) \<lparr> m_capacity = 4, m_mask = 3, m_buffer = (replicate 4 0)[0 := 7],
       m_writeIndex = 1, m_readIndex = 0 \<rparr>
     = Inr (True, 7, \<lparr> m_capacity = 4, m_mask = 3, m_buffer = (replicate 4 0)[0 := 7],
       m_writeIndex = 1, m_readIndex = 1 \<rparr>)"
proof -
  let ?init = "\<lparr> m_capacity = 4, m_mask = 3, m_buffer = replicate 4 (0 :: nat),
                m_writeIndex = 0, m_readIndex = 0 \<rparr>"
  let ?q = "\<lparr> m_capacity = 4, m_mask = 3, m_buffer = (replicate 4 (0 :: nat))[0 := 7],
                m_writeIndex = 1, m_readIndex = 0 \<rparr>"
  have h1: "CircularQueue_ctor (2 ^ 63 - 1) (0 :: nat) 3 = Some (Inr ?init)"
    by (simp add: CircularQueue_ctor_def vector_n_def pow2_loop.simps resize_replicate)
  have h2: "run [Enqueue 7] ?init = Inr ([EnqRet True], ?q)"
    by (simp add: enqueue_def)
  from dequeue_contract [OF h1 h2, of 0] show ?thesis
    by (simp add: isEmpty_def)
qed

text \<open>
  Claim C5 (capacity normalisation), as amended. A request that is a power of two and
  is not above \<open>max_size()\<close> is used unchanged. For every request of at least 1 whose
  next power of two is not above \<open>max_size()\<close> (nor above \<open>2^63\<close>, which \<open>max_size()\<close>
  on a 64-bit platform implies), the constructor returns, and the capacity is the
  smallest power of two that is at least the request; the mask is the capacity minus
  one, the storage has as many slots as the capacity, and both cursors are 0. A request
  of 5 gives capacity 8, and a request of 8 gives capacity 8.

  The claim as stated speaks of every request. A request above \<open>max_size()\<close> makes
  \<open>m_buffer(capacity)\<close> throw \<open>std::length_error\<close>, and a request whose next power of
  two is above \<open>max_size()\<close> makes \<open>resize\<close> throw it (lemmas \<open>ctor_length_error\<close> and
  \<open>ctor_returns\<close>). The claim also fails at 0, which is not a power of two but passes
  the test \<open>(capacity & (capacity - 1)) == 0\<close> and is kept as it is.
\<close>

theorem capacity_normalised:
  "((\<exists>j. unat c = 2 ^ j) \<and> unat c \<le> max_size \<longrightarrow>
      CircularQueue_ctor max_size d c =
        Some (Inr \<lparr> m_capacity = c, m_mask = c - 1, m_buffer = replicate (unat c) d,
                    m_writeIndex = 0, m_readIndex = 0 \<rparr>)) \<and>
   (1 \<le> c \<and> c \<le> 2 ^ 63 \<and> (\<exists>j. unat c \<le> 2 ^ j \<and> 2 ^ j \<le> max_size) \<longrightarrow>
      (\<exists>q k. CircularQueue_ctor max_size d c = Some (Inr q) \<and>
         unat (capacity q) = 2 ^ k \<and> unat c \<le> 2 ^ k \<and>
         (\<forall>j. unat c \<le> 2 ^ j \<longrightarrow> (2 :: nat) ^ k \<le> 2 ^ j) \<and>
         m_mask q = capacity q - 1 \<and>
         m_buffer q = replicate (unat (capacity q)) d \<and>
         m_writeIndex q = 0 \<and> m_readIndex q = 0))"
proof (intro conjI impI)
  assume a: "(\<exists>j. unat c = 2 ^ j) \<and> unat c \<le> max_size"
  then obtain j where "unat c = 2 ^ j" by blast
  then have "j < 64" "c = 2 ^ j" by (rule unat_pow2_word)+
  then have "c AND (c - 1) = 0" by (simp only: pow2_test_zero)
  with a show "CircularQueue_ctor max_size d c =
        Some (Inr \<lparr> m_capacity = c, m_mask = c - 1, m_buffer = replicate (unat c) d,
                    m_writeIndex = 0, m_readIndex = 0 \<rparr>)"
    by (simp add: CircularQueue_ctor_def vector_n_def)
next
  assume a: "1 \<le> c \<and> c \<le> 2 ^ 63 \<and> (\<exists>j. unat c \<le> 2 ^ j \<and> 2 ^ j \<le> max_size)"
  then have nz: "c \<noteq> 0" and le: "c \<le> 2 ^ 63" by auto
  from a obtain j where j: "unat c \<le> 2 ^ j" "2 ^ j \<le> max_size" by blast
  from nz le obtain k where k: "k < 64" "unat c \<le> 2 ^ k" "\<forall>j. unat c \<le> 2 ^ j \<longrightarrow> k \<le> j"
    "CircularQueue_ctor max_size d c =
       (if 2 ^ k \<le> max_size
        then Some (Inr \<lparr> m_capacity = 2 ^ k, m_mask = 2 ^ k - 1,
                         m_buffer = replicate (2 ^ k) d,
                         m_writeIndex = 0, m_readIndex = 0 \<rparr>)
        else Some (Inl LengthError))"
    by (rule ctor_returns)
  have least: "\<forall>j. unat c \<le> 2 ^ j \<longrightarrow> (2 :: nat) ^ k \<le> 2 ^ j"
    using k(3) by (auto intro: power_increasing)
  with j have "2 ^ k \<le> max_size" by (meson order_trans)
  with k(4) have "CircularQueue_ctor max_size d c =
      Some (Inr \<lparr> m_capacity = 2 ^ k, m_mask = 2 ^ k - 1, m_buffer = replicate (2 ^ k) d,
                  m_writeIndex = 0, m_readIndex = 0 \<rparr>)"
    by simp
  with k(1,2) least show "\<exists>q k. CircularQueue_ctor max_size d c = Some (Inr q) \<and>
         unat (capacity q) = 2 ^ k \<and> unat c \<le> 2 ^ k \<and>
         (\<forall>j. unat c \<le> 2 ^ j \<longrightarrow> (2 :: nat) ^ k \<le> 2 ^ j) \<and>
         m_mask q = capacity q - 1 \<and>
         m_buffer q = replicate (unat (capacity q)) d \<and>
         m_writeIndex q = 0 \<and> m_readIndex q = 0"
    by (intro exI [of _ "\<lparr> m_capacity = 2 ^ k, m_mask = 2 ^ k - 1,
          m_buffer = replicate (2 ^ k) d, m_writeIndex = 0, m_readIndex = 0 \<rparr>"] exI [of _ k])
       (simp add: capacity_def unat_pow2)
qed

theorem capacity_normalised_witness:
  "(\<exists>q. CircularQueue_ctor (2 ^ 63 - 1) (0 :: nat) 5 = Some (Inr q) \<and> capacity q = 8 \<and>
        m_mask q = 7 \<and> m_buffer q = replicate 8 0) \<and>
   CircularQueue_ctor (2 ^ 63 - 1) (0 :: nat) 8 =
     Some (Inr \<lparr> m_capacity = 8, m_mask = 7, m_buffer = replicate 8 0,
                 m_writeIndex = 0, m_readIndex = 0 \<rparr>)"
proof
  have "(1 :: size_t) \<le> 5 \<and> (5 :: size_t) \<le> 2 ^ 63 \<and>
      (\<exists>j. unat (5 :: size_t) \<le> 2 ^ j \<and> 2 ^ j \<le> (2 ^ 63 - 1 :: nat))"
    by (auto intro!: exI [of _ 3])
  with capacity_normalised [where c = 5 and max_size = "2 ^ 63 - 1" and d = "0 :: nat"]
  obtain q k where
    q: "CircularQueue_ctor (2 ^ 63 - 1) (0 :: nat) 5 = Some (Inr q)"
      "unat (capacity q) = 2 ^ k" "unat (5 :: size_t) \<le> (2 :: nat) ^ k"
      "\<forall>j. unat (5 :: size_t) \<le> (2 :: nat) ^ j \<longrightarrow> (2 :: nat) ^ k \<le> 2 ^ j"
      "m_mask q = capacity q - 1" "m_buffer q = replicate (unat (capacity q)) 0"
    by blast
  from q(4) have "(2 :: nat) ^ k \<le> 2 ^ 3" by (rule allE [where x = 3]) simp
  then have "k \<le> 3" using power_le_imp_le_exp [of 2 k 3] by simp
  moreover have "k \<noteq> 0"
  proof
    assume "k = 0"
    with q(3) show False by simp
  qed
  moreover have "k \<noteq> 1"
  proof
    assume "k = 1"
    with q(3) show False by simp
  qed
  moreover have "k \<noteq> 2"
  proof
    assume "k = 2"
    with q(3) show False by simp
  qed
  ultimately have "k = 3" by simp
  with q(2) have "unat (capacity q) = unat (8 :: size_t)" by simp
  then have "capacity q = 8" by (simp only: word_unat_eq_iff)
  with q(1,5,6) show "\<exists>q. CircularQueue_ctor (2 ^ 63 - 1) (0 :: nat) 5 = Some (Inr q) \<and>
      capacity q = 8 \<and> m_mask q = 7 \<and> m_buffer q = replicate 8 0" by simp
next
  have "(\<exists>j. unat (8 :: size_t) = 2 ^ j) \<and> unat (8 :: size_t) \<le> (2 ^ 63 - 1 :: nat)"
    by (auto intro!: exI [of _ 3])
  with capacity_normalised [where c = 8 and max_size = "2 ^ 63 - 1" and d = "0 :: nat"]
  show "CircularQueue_ctor (2 ^ 63 - 1) (0 :: nat) 8 =
     Some (Inr \<lparr> m_capacity = 8, m_mask = 7, m_buffer = replicate 8 0,
                 m_writeIndex = 0, m_readIndex = 0 \<rparr>)"
    by simp
qed

text \<open>
  Three requests outside the amended claim, with the largest \<open>max_size()\<close> that a
  64-bit platform can have, \<open>2^63 - 1\<close>. The request \<open>2^63\<close> is a power of two and is
  not used unchanged: \<open>m_buffer(capacity)\<close> throws. The request \<open>2^62 + 1\<close> does not get
  capacity \<open>2^63\<close>: \<open>resize\<close> throws. The request 0 keeps capacity 0.
\<close>

theorem capacity_normalised_counterexample:
  "CircularQueue_ctor (2 ^ 63 - 1) (0 :: nat) (2 ^ 63) = Some (Inl LengthError) \<and>
   CircularQueue_ctor (2 ^ 63 - 1) (0 :: nat) (2 ^ 62 + 1) = Some (Inl LengthError) \<and>
   CircularQueue_ctor (2 ^ 63 - 1) (0 :: nat) 0 =
     Some (Inr \<lparr> m_capacity = 0, m_mask = 18446744073709551615, m_buffer = [],
                 m_writeIndex = 0, m_readIndex = 0 \<rparr>)"
proof (intro conjI)
  show "CircularQueue_ctor (2 ^ 63 - 1) (0 :: nat) (2 ^ 63) = Some (Inl LengthError)"
    by (rule ctor_length_error) simp
next
  show "CircularQueue_ctor (2 ^ 63 - 1) (0 :: nat) (2 ^ 62 + 1) = Some (Inl LengthError)"
    by (simp add: CircularQueue_ctor_def vector_n_def pow2_loop.simps resize_def)
next
  show "CircularQueue_ctor (2 ^ 63 - 1) (0 :: nat) 0 =
     Some (Inr \<lparr> m_capacity = 0, m_mask = 18446744073709551615, m_buffer = [],
                 m_writeIndex = 0, m_readIndex = 0 \<rparr>)"
    by (simp add: CircularQueue_ctor_def vector_n_def)
qed

text \<open>
  Claim C6 (capacity is a power of two, at least 1, for every request including 0). The
  code does not do this for a request of 0: the constructor returns a queue of capacity
  0, and 0 is not a power of two.
\<close>

theorem ctor_zero_not_power_of_two:
  "\<exists>q. CircularQueue_ctor max_size d 0 = Some (Inr q) \<and> capacity q = 0 \<and>
     (\<forall>k. unat (capacity q) \<noteq> 2 ^ k)"
  by (simp add: CircularQueue_ctor_def vector_n_def capacity_def)

text \<open>
  Claim C7 (\<open>clear\<close>). \<open>clear()\<close> sets the read cursor to the write cursor and leaves the
  write cursor, the storage, the capacity and the mask as they are. After it \<open>size()\<close>
  is 0, \<open>isEmpty()\<close> is true and a \<open>dequeue\<close> returns \<open>false\<close> without touching the
  caller's variable, in every state. \<open>isEmpty()\<close> is also true of every queue that the
  constructor returns.
\<close>

theorem clear_resets:
  "m_readIndex (clear q) = m_writeIndex q \<and>
   m_writeIndex (clear q) = m_writeIndex q \<and>
   m_buffer (clear q) = m_buffer q \<and>
   m_capacity (clear q) = m_capacity q \<and>
   m_mask (clear q) = m_mask q \<and>
   size_cq (clear q) = 0 \<and>
   isEmpty (clear q) \<and>
   dequeue out (clear q) = Inr (False, out, clear q) \<and>
   (\<forall>q0. CircularQueue_ctor max_size d c = Some (Inr q0) \<longrightarrow> isEmpty q0)"
proof -
  have "isEmpty q0" if "CircularQueue_ctor max_size d c = Some (Inr q0)" for q0
    using ctor_inv [OF that] by (auto simp: degenerate_def isEmpty_def)
  then show ?thesis
    by (simp add: clear_def size_cq_def isEmpty_def dequeue_def)
qed

theorem clear_resets_witness:
  "isEmpty \<lparr> m_capacity = 8, m_mask = 7, m_buffer = replicate 8 (0 :: nat),
     m_writeIndex = 0, m_readIndex = 0 \<rparr> \<and>
   dequeue (0 :: nat) (clear \<lparr> m_capacity = 4, m_mask = 3, m_buffer = [7, 8, 0, 0],
       m_writeIndex = 2, m_readIndex = 0 \<rparr>)
     = Inr (False, 0, \<lparr> m_capacity = 4, m_mask = 3, m_buffer = [7, 8, 0, 0],
       m_writeIndex = 2, m_readIndex = 2 \<rparr>)"
  using clear_resets [where q = "\<lparr> m_capacity = 4, m_mask = 3, m_buffer = [7, 8, 0, 0 :: nat],
       m_writeIndex = 2, m_readIndex = 0 \<rparr>" and out = 0 and max_size = "2 ^ 63 - 1"
       and d = "0 :: nat" and c = 8]
  by (simp add: CircularQueue_ctor_def vector_n_def clear_def size_cq_def isEmpty_def
      dequeue_def)

text \<open>
  Claim C8 (usage ratio), as amended. Take a queue that the constructor returned for a
  request of at least 1, in the state after any sequence of calls, with a capacity of at
  most \<open>2^53\<close>. Then \<open>getUsageRatio()\<close> is a finite \<open>double\<close>, it is exactly \<open>size()\<close>
  divided by \<open>capacity()\<close>, and it is at least 0 and strictly less than 1. Of \<open>double\<close>
  arithmetic this uses that the conversion of a \<open>size_t\<close> is exact up to \<open>2^53\<close> and
  that \<open>m / 2^k\<close> is a \<open>double\<close> for \<open>m \<le> 2^53\<close> and \<open>k \<le> 53\<close>.

  The claim as stated speaks of every reachable state. After a request of 0 the capacity
  is 0 and the ratio is \<open>0.0 / 0.0\<close>, a NaN. Above \<open>2^53\<close> a size need not have a
  \<open>double\<close> of its own, and what the conversion makes of it is left to the
  implementation, so nothing is said there.
\<close>

theorem usage_ratio_exact:
  assumes "1 \<le> c" and "CircularQueue_ctor max_size d c = Some (Inr q0)"
    and "run cs q0 = Inr (rs, q)"
    and "unat (capacity q) \<le> 2 ^ 53"
    and "\<And>n. n \<le> 2 ^ 53 \<Longrightarrow> to_double n = of_nat n"
    and "\<And>m k. m \<le> 2 ^ 53 \<Longrightarrow> k \<le> 53 \<Longrightarrow> rnd (of_nat m / 2 ^ k) = of_nat m / 2 ^ k"
  shows "\<exists>x. getUsageRatio to_double rnd q = Finite x \<and>
           x = of_nat (unat (size_cq q)) / of_nat (unat (capacity q)) \<and>
           0 \<le> x \<and> x < 1"
proof -
  define n where "n = unat (size_cq q)"
  from assms(1) have "c \<noteq> 0" by auto
  with reachable_inv [OF assms(2,3)] have v: "valid q" by simp
  from v obtain k where k: "k < 64" "unat (m_capacity q) = 2 ^ k" by (rule validE)
  have cap: "(2 :: nat) ^ k \<le> 2 ^ 53"
    using assms(4) unfolding capacity_def k(2) .
  then have k53: "k \<le> 53" using power_le_imp_le_exp [of 2 k 53] by simp
  have "0 < (2 :: nat) ^ k" by simp
  with size_le [OF v] have lt: "n < 2 ^ k"
    unfolding k(2) n_def by arith
  with cap have n53: "n \<le> 2 ^ 53" by simp
  have ts: "to_double n = of_nat n" by (rule assms(5) [OF n53])
  have tc: "to_double (2 ^ k) = 2 ^ k" using assms(5) [OF cap] by simp
  have r: "rnd (of_nat n / 2 ^ k) = of_nat n / 2 ^ k" by (rule assms(6) [OF n53 k53])
  have g: "getUsageRatio to_double rnd q = double_div rnd (to_double n) (to_double (2 ^ k))"
    unfolding getUsageRatio_def n_def k(2) ..
  have "getUsageRatio to_double rnd q = Finite (of_nat n / 2 ^ k)"
    unfolding g ts tc by (simp add: double_div_def r)
  moreover have "(of_nat n :: rat) / 2 ^ k < 1"
  proof -
    have "(of_nat n :: rat) < of_nat (2 ^ k)"
      using lt by (simp only: of_nat_less_iff)
    then show ?thesis by simp
  qed
  moreover have "(0 :: rat) \<le> of_nat n / 2 ^ k" by simp
  moreover have "(of_nat (unat (size_cq q)) :: rat) / of_nat (unat (capacity q)) = of_nat n / 2 ^ k"
    unfolding capacity_def k(2) n_def by simp
  ultimately show ?thesis by simp
qed

theorem usage_ratio_exact_witness:
  "getUsageRatio rat_of_nat id
     \<lparr> m_capacity = 4, m_mask = 3, m_buffer = (replicate 4 (0 :: nat))[0 := 7],
       m_writeIndex = 1, m_readIndex = 0 \<rparr> = Finite (1 / 4)"
proof -
  let ?init = "\<lparr> m_capacity = 4, m_mask = 3, m_buffer = replicate 4 (0 :: nat),
                 m_writeIndex = 0, m_readIndex = 0 \<rparr>"
  let ?one = "\<lparr> m_capacity = 4, m_mask = 3, m_buffer = (replicate 4 (0 :: nat))[0 := 7],
                m_writeIndex = 1, m_readIndex = 0 \<rparr>"
  have h1: "(1 :: size_t) \<le> 3" by simp
  have h2: "CircularQueue_ctor (2 ^ 63 - 1) (0 :: nat) 3 = Some (Inr ?init)"
    by (simp add: CircularQueue_ctor_def vector_n_def pow2_loop.simps resize_replicate)
  have h3: "run [Enqueue 7] ?init = Inr ([EnqRet True], ?one)"
    by (simp add: enqueue_def)
  have h4: "unat (capacity ?one) \<le> 2 ^ 53" by (simp add: capacity_def)
  have h5: "rat_of_nat n = of_nat n" for n :: nat by simp
  have h6: "id (of_nat m / 2 ^ k) = (of_nat m / 2 ^ k :: rat)" for m k :: nat by simp
  from usage_ratio_exact [OF h1 h2 h3 h4 h5 h6] obtain x where
    x: "getUsageRatio rat_of_nat id ?one = Finite x"
      "x = of_nat (unat (size_cq ?one)) / of_nat (unat (capacity ?one))"
    by blast
  from x(2) have "x = 1 / 4" by (simp add: size_cq_def capacity_def)
  with x(1) show ?thesis by simp
qed

text \<open>
  The ratio after a request of 0, where the conversion and the rounding are exact
  everywhere: the constructor returns the queue of capacity 0, and its ratio is a NaN.
\<close>

theorem usage_ratio_counterexample:
  "CircularQueue_ctor (2 ^ 63 - 1) (0 :: nat) 0 =
     Some (Inr \<lparr> m_capacity = 0, m_mask = 18446744073709551615, m_buffer = [],
                 m_writeIndex = 0, m_readIndex = 0 \<rparr>) \<and>
   getUsageRatio rat_of_nat id
     \<lparr> m_capacity = 0, m_mask = 18446744073709551615, m_buffer = ([] :: nat list),
       m_writeIndex = 0, m_readIndex = 0 \<rparr> = NaN"
  by (simp add: CircularQueue_ctor_def vector_n_def getUsageRatio_def double_div_def
      size_cq_def)

text \<open>
  Claim C9 (invariant of every reachable state). For a queue that the constructor
  returned for a request of at least 1, every sequence of \<open>enqueue\<close>, \<open>forceEnqueue\<close>,
  \<open>dequeue\<close> and \<open>clear\<close> calls runs without undefined behaviour, and in the state it
  ends in \<open>size() \<le> capacity - 1\<close>, both cursors are below the capacity, and
  \<open>isFull()\<close> is true exactly when \<open>size() = capacity - 1\<close>.
\<close>

theorem reachable_invariant:
  assumes "1 \<le> c" and "CircularQueue_ctor max_size d c = Some (Inr q0)"
  shows "\<exists>rs q. run cs q0 = Inr (rs, q) \<and>
           size_cq q \<le> capacity q - 1 \<and>
           m_writeIndex q < capacity q \<and> m_readIndex q < capacity q \<and>
           (isFull q \<longleftrightarrow> size_cq q = capacity q - 1)"
proof -
  from assms(1) have "c \<noteq> 0" by auto
  with ctor_inv [OF assms(2)] have "valid q0" by simp
  from run_valid [OF this, of cs] obtain rs q where r: "run cs q0 = Inr (rs, q)" "valid q"
    by blast
  have m: "unat (m_capacity q - 1) = unat (m_capacity q) - 1"
    by (rule unat_minus_1_cap [OF r(2)])
  have "size_cq q \<le> capacity q - 1"
    using size_le [OF r(2)] unfolding capacity_def word_le_nat_alt m .
  moreover have "m_writeIndex q < capacity q" "m_readIndex q < capacity q"
    using r(2) by (simp_all add: valid_def capacity_def)
  moreover have "isFull q \<longleftrightarrow> size_cq q = capacity q - 1"
    unfolding isFull_iff_size [OF r(2)] capacity_def word_unat_eq_iff m ..
  ultimately show ?thesis using r(1) by blast
qed

theorem reachable_invariant_witness:
  "\<exists>rs q. run [Enqueue 1, ForceEnqueue 2, Dequeue 0, Clear, Enqueue 3]
             \<lparr> m_capacity = 4, m_mask = 3, m_buffer = replicate 4 (0 :: nat),
               m_writeIndex = 0, m_readIndex = 0 \<rparr> = Inr (rs, q) \<and>
           size_cq q \<le> capacity q - 1 \<and>
           m_writeIndex q < capacity q \<and> m_readIndex q < capacity q \<and>
           (isFull q \<longleftrightarrow> size_cq q = capacity q - 1)"
proof -
  have h1: "(1 :: size_t) \<le> 3" by simp
  have h2: "CircularQueue_ctor (2 ^ 63 - 1) (0 :: nat) 3 =
      Some (Inr \<lparr> m_capacity = 4, m_mask = 3, m_buffer = replicate 4 (0 :: nat),
                  m_writeIndex = 0, m_readIndex = 0 \<rparr>)"
    by (simp add: CircularQueue_ctor_def vector_n_def pow2_loop.simps resize_replicate)
  show ?thesis by (rule reachable_invariant [OF h1 h2])
qed

text \<open>
  Claim C10 (a request of 0). The constructor's test accepts 0: the queue has capacity
  0, mask \<open>2^64 - 1\<close> (the largest \<open>size_t\<close>) and storage of length 0. In \<open>enqueue\<close> the
  next write position is 1, which is not the read cursor 0, so the queue does not count
  as full and the write to slot 0 is outside the storage.
\<close>

theorem zero_capacity_out_of_bounds:
  "\<exists>q. CircularQueue_ctor max_size d 0 = Some (Inr q) \<and>
     capacity q = 0 \<and> m_mask q = 18446744073709551615 \<and> m_buffer q = [] \<and>
     m_writeIndex q = 0 \<and> m_readIndex q = 0 \<and>
     (m_writeIndex q + 1) AND m_mask q = 1 \<and> \<not> isFull q \<and>
     enqueue item q = Inl OutOfBounds"
  by (simp add: CircularQueue_ctor_def vector_n_def capacity_def isFull_def enqueue_def)

end
